theory Spec2Isabelle
  imports Complex_Main
begin

section \<open>Neural analogy: the patch-matching engine of analogy.py\<close>

text \<open>
  The development embeds the patch-matching methods of class \<open>Model\<close>
  (\<open>patches_score\<close>, \<open>patches_initialize\<close>, \<open>patches_propagate\<close>,
  \<open>patches_search\<close>), the refinement loop of \<open>NeuralAnalogy.compute_flow\<close>, the
  descriptor normalisation of \<open>Buffer.__init__\<close> and \<open>NeuralAnalogy.merge_flow\<close>.

  Conventions.
  \<^item> A raised Python exception is a value \<open>Inl e\<close> of \<open>error + 'a\<close>; a normal
    return is \<open>Inr x\<close>.
  \<^item> Array subscripts are Python's: \<open>-n \<le> i < 0\<close> counts from the end, anything
    outside \<open>-n \<le> i < n\<close> raises \<open>IndexError\<close>.
  \<^item> A float is a real or one of the three special values of IEEE arithmetic. The
    arithmetic of the score is exact. In the normalisation of the descriptors, where a
    square that underflows makes a norm zero, every operation is followed by a rounding
    \<open>rnd\<close>, a parameter: it maps the exact result to the value float32 keeps.
  \<^item> A coordinate is an integer; the two places where the source computes on an
    \<open>np.int32\<close> array, the subtraction of the scan offset and the doubling of the parent's
    indices, wrap around at 32 bits.
\<close>

subsection \<open>Exceptions\<close>

datatype error = IndexError | AssertionError | ValueError | RuntimeError

definition ebind :: "error + 'a \<Rightarrow> ('a \<Rightarrow> error + 'b) \<Rightarrow> error + 'b" where
  "ebind m f = (case m of Inl e \<Rightarrow> Inl e | Inr x \<Rightarrow> f x)"

text \<open>A \<open>for\<close> loop over a list whose body may raise: the first exception ends it.\<close>

fun efold :: "('a \<Rightarrow> 's \<Rightarrow> error + 's) \<Rightarrow> 'a list \<Rightarrow> 's \<Rightarrow> error + 's" where
  "efold f [] s = Inr s"
| "efold f (x # xs) s = ebind (f x s) (efold f xs)"

subsection \<open>Floating-point values\<close>

datatype fval = Fin real | PInf | NInf | NaN

fun fneg :: "fval \<Rightarrow> fval" where
  "fneg (Fin a) = Fin (- a)"
| "fneg PInf = NInf"
| "fneg NInf = PInf"
| "fneg NaN = NaN"

fun fadd :: "fval \<Rightarrow> fval \<Rightarrow> fval" where
  "fadd (Fin a) (Fin b) = Fin (a + b)"
| "fadd NaN _ = NaN"
| "fadd _ NaN = NaN"
| "fadd PInf NInf = NaN"
| "fadd NInf PInf = NaN"
| "fadd PInf _ = PInf"
| "fadd _ PInf = PInf"
| "fadd NInf _ = NInf"
| "fadd _ NInf = NInf"

definition fsub :: "fval \<Rightarrow> fval \<Rightarrow> fval" where
  "fsub a b = fadd a (fneg b)"

definition signed_inf :: "bool \<Rightarrow> fval" where
  "signed_inf positive = (if positive then PInf else NInf)"

fun fmul :: "fval \<Rightarrow> fval \<Rightarrow> fval" where
  "fmul (Fin a) (Fin b) = Fin (a * b)"
| "fmul NaN _ = NaN"
| "fmul _ NaN = NaN"
| "fmul PInf (Fin b) = (if b = 0 then NaN else signed_inf (0 < b))"
| "fmul NInf (Fin b) = (if b = 0 then NaN else signed_inf (b < 0))"
| "fmul (Fin a) PInf = (if a = 0 then NaN else signed_inf (0 < a))"
| "fmul (Fin a) NInf = (if a = 0 then NaN else signed_inf (a < 0))"
| "fmul PInf PInf = PInf"
| "fmul NInf NInf = PInf"
| "fmul PInf NInf = NInf"
| "fmul NInf PInf = NInf"

text \<open>
  Division as numpy performs it: dividing by zero raises nothing (the default error
  state only warns); \<open>0 / 0\<close> is NaN and \<open>a / 0\<close> an infinity. The divisors of this
  program are norms, so a zero divisor is \<open>+0\<close>.
\<close>

fun fdiv :: "fval \<Rightarrow> fval \<Rightarrow> fval" where
  "fdiv (Fin a) (Fin b) =
     (if b \<noteq> 0 then Fin (a / b) else if a = 0 then NaN else signed_inf (0 < a))"
| "fdiv NaN _ = NaN"
| "fdiv _ NaN = NaN"
| "fdiv (Fin a) PInf = Fin 0"
| "fdiv (Fin a) NInf = Fin 0"
| "fdiv PInf (Fin b) = signed_inf (0 \<le> b)"
| "fdiv NInf (Fin b) = signed_inf (b < 0)"
| "fdiv PInf PInf = NaN"
| "fdiv PInf NInf = NaN"
| "fdiv NInf PInf = NaN"
| "fdiv NInf NInf = NaN"

fun fsqrt :: "fval \<Rightarrow> fval" where
  "fsqrt (Fin a) = (if 0 \<le> a then Fin (sqrt a) else NaN)"
| "fsqrt PInf = PInf"
| "fsqrt NInf = NaN"
| "fsqrt NaN = NaN"

text \<open>The comparison \<open>a > b\<close>: false as soon as one side is NaN.\<close>

fun fgt :: "fval \<Rightarrow> fval \<Rightarrow> bool" where
  "fgt (Fin a) (Fin b) = (b < a)"
| "fgt NaN _ = False"
| "fgt _ NaN = False"
| "fgt PInf PInf = False"
| "fgt PInf _ = True"
| "fgt _ PInf = False"
| "fgt NInf _ = False"
| "fgt _ NInf = True"

text \<open>\<open>torch.sum\<close> and \<open>np.sum\<close> of a vector.\<close>

definition fsum :: "fval list \<Rightarrow> fval" where
  "fsum xs = foldl fadd (Fin 0) xs"

fun is_finite :: "fval \<Rightarrow> bool" where
  "is_finite (Fin a) = True"
| "is_finite PInf = False"
| "is_finite NInf = False"
| "is_finite NaN = False"

text \<open>
  Rounding the result of an operation: a real result is rounded by \<open>rnd\<close>, a special
  value is kept. \<open>Fin\<close> as \<open>rnd\<close> is the exact arithmetic.
\<close>

definition fround :: "(real \<Rightarrow> fval) \<Rightarrow> fval \<Rightarrow> fval" where
  "fround rnd a = (case a of Fin r \<Rightarrow> rnd r | PInf \<Rightarrow> PInf | NInf \<Rightarrow> NInf | NaN \<Rightarrow> NaN)"

text \<open>The sum of a vector with every partial sum rounded.\<close>

definition rsum :: "(real \<Rightarrow> fval) \<Rightarrow> fval list \<Rightarrow> fval" where
  "rsum rnd xs = foldl (\<lambda>a b. fround rnd (fadd a b)) (Fin 0) xs"

text \<open>
  The range of float32 without the rounding of the mantissa: a magnitude below the
  smallest subnormal is flushed to zero, one from \<open>2^128\<close> on is an infinity.
\<close>

definition range32 :: "real \<Rightarrow> fval" where
  "range32 r = (if \<bar>r\<bar> < 1 / 2 ^ 150 then Fin 0
                else if 2 ^ 128 \<le> \<bar>r\<bar> then signed_inf (0 < r)
                else Fin r)"

subsection \<open>Subscripts\<close>

definition py_index :: "nat \<Rightarrow> int \<Rightarrow> error + nat" where
  "py_index n i =
     (if 0 \<le> i \<and> i < int n then Inr (nat i)
      else if - int n \<le> i \<and> i < 0 then Inr (nat (int n + i))
      else Inl IndexError)"

definition getitem :: "'a list \<Rightarrow> int \<Rightarrow> error + 'a" where
  "getitem xs i = ebind (py_index (length xs) i) (\<lambda>k. Inr (xs ! k))"

text \<open>\<open>a[i, j]\<close> on an array whose rows are the elements of \<open>a\<close>.\<close>

definition getitem2 :: "'a list list \<Rightarrow> int \<Rightarrow> int \<Rightarrow> error + 'a" where
  "getitem2 a i j = ebind (getitem a i) (\<lambda>row. getitem row j)"

text \<open>\<open>a[i, j] = v\<close>.\<close>

definition setitem2 :: "'a list list \<Rightarrow> int \<Rightarrow> int \<Rightarrow> 'a \<Rightarrow> error + 'a list list" where
  "setitem2 a i j v =
     ebind (py_index (length a) i) (\<lambda>k.
     ebind (py_index (length (a ! k)) j) (\<lambda>l.
     Inr (a[k := (a ! k)[l := v]])))"

text \<open>\<open>a.shape[0]\<close> and \<open>a.shape[1]\<close>; the second is only read inside a loop over the rows.\<close>

definition shape0 :: "'a list list \<Rightarrow> int" where
  "shape0 a = int (length a)"

definition shape1 :: "'a list list \<Rightarrow> int" where
  "shape1 a = (case a of [] \<Rightarrow> 0 | row # _ \<Rightarrow> int (length row))"

text \<open>Python's \<open>range(start, stop, step)\<close> for a non-zero step.\<close>

definition py_range :: "int \<Rightarrow> int \<Rightarrow> int \<Rightarrow> int list" where
  "py_range start stop step =
     (let n = (if 0 < step \<and> start < stop then (stop - start - 1) div step + 1
               else if step < 0 \<and> stop < start then (start - stop - 1) div (- step) + 1
               else 0)
      in map (\<lambda>k. start + int k * step) [0..<nat n])"

text \<open>The value an \<open>np.int32\<close> operation keeps of an integer result.\<close>

definition int32 :: "int \<Rightarrow> int" where
  "int32 n = (n + 2 ^ 31) mod 2 ^ 32 - 2 ^ 31"

subsection \<open>Buffer: one pyramid level of one image\<close>

text \<open>
  The fields of class \<open>Buffer\<close> that the engine and the merge step use. A feature array
  is addressed \<open>[y][x][c]\<close>: the source's tensor of shape \<open>(1, C, H, W)\<close> with the batch
  axis dropped and the channel axis last. A patch bank is addressed \<open>[y][x][k]\<close>, the
  indices array holds one pair \<open>(v, u)\<close> per cell.
\<close>

record buffer =
  features_orign :: "fval list list list"
  patches_orign :: "fval list list list"
  patches_repro :: "fval list list list"
  weights :: "fval list list"
  weight :: fval
  radius :: int
  padding :: int
  indices :: "(int \<times> int) list list"
  scores :: "fval list list"

subsection \<open>Model.patches\_score\<close>

text \<open>
  The elementwise product of two one-dimensional tensors: equal lengths, or one of them
  of length one (broadcast); anything else raises.
\<close>

definition tensor_mul :: "fval list \<Rightarrow> fval list \<Rightarrow> error + fval list" where
  "tensor_mul a b =
     (if length a = length b then Inr (map2 fmul a b)
      else if length a = 1 then Inr (map (fmul (hd a)) b)
      else if length b = 1 then Inr (map (\<lambda>x. fmul x (hd b)) a)
      else Inl RuntimeError)"

definition patches_score ::
  "buffer \<Rightarrow> int \<Rightarrow> int \<Rightarrow> buffer \<Rightarrow> int \<Rightarrow> int \<Rightarrow> int \<Rightarrow> error + fval" where
  "patches_score first y x second v u pad =
     ebind (getitem2 (patches_repro first) y x) (\<lambda>a.
     ebind (getitem2 (patches_orign second) v u) (\<lambda>b.
     ebind (tensor_mul a b) (\<lambda>ab.
     ebind (getitem2 (patches_orign first) y x) (\<lambda>c.
     ebind (getitem2 (patches_repro second) v u) (\<lambda>d.
     ebind (tensor_mul c d) (\<lambda>cd.
     Inr (fmul (Fin 0.5) (fadd (fsum ab) (fsum cd)))))))))"

text \<open>The dot product of the specification: the sum over \<open>k\<close> of \<open>a[k] * b[k]\<close>.\<close>

definition dot :: "fval list \<Rightarrow> fval list \<Rightarrow> fval" where
  "dot a b = fsum (map (\<lambda>k. fmul (a ! k) (b ! k)) [0..<length a])"

subsection \<open>Model.patches\_initialize\<close>

text \<open>
  The loops mutate \<open>first\<close> in place; the model passes the buffer along. \<open>second\<close> is
  only read, and only its patch banks, which no loop writes.
\<close>

definition initialize_cell :: "buffer \<Rightarrow> int \<Rightarrow> int \<Rightarrow> int \<Rightarrow> buffer \<Rightarrow> error + buffer" where
  "initialize_cell second pad y x first =
     ebind (getitem2 (indices first) y x) (\<lambda>(v, u).
     ebind (patches_score first y x second v u pad) (\<lambda>s.
     ebind (setitem2 (scores first) y x s) (\<lambda>sc.
     Inr (first\<lparr>scores := sc\<rparr>))))"

definition patches_initialize :: "buffer \<Rightarrow> buffer \<Rightarrow> int \<Rightarrow> error + buffer" where
  "patches_initialize first second pad =
     efold (\<lambda>y. efold (\<lambda>x. initialize_cell second pad y x)
                   (py_range 0 (shape1 (indices first)) 1))
           (py_range 0 (shape0 (indices first)) 1) first"

subsection \<open>Model.patches\_propagate\<close>

text \<open>The two scan offsets of a sweep, in the order the source lists them.\<close>

definition propagate_offsets :: "bool \<Rightarrow> (int \<times> int) list" where
  "propagate_offsets evn = [(0, if evn then - 1 else 1), (if evn then - 1 else 1, 0)]"

text \<open>\<open>range(0, n) if even else range(n-1, -1, -1)\<close>.\<close>

definition scan_range :: "bool \<Rightarrow> int \<Rightarrow> int list" where
  "scan_range evn n = (if evn then py_range 0 n 1 else py_range (n - 1) (- 1) (- 1))"

text \<open>The cell whose stored index is read for cell \<open>(y, x)\<close> and a scan offset.\<close>

definition propagate_neighbor :: "(int \<times> int) list list \<Rightarrow> int \<Rightarrow> int \<Rightarrow> int \<times> int \<Rightarrow> int \<times> int" where
  "propagate_neighbor idx y x offset =
     (min (shape0 idx - 1) (max (y + fst offset) 0),
      min (shape1 idx - 1) (max (x + snd offset) 0))"

definition propagate_candidate ::
  "(int \<times> int) list list \<Rightarrow> int \<Rightarrow> int \<Rightarrow> int \<times> int \<Rightarrow> error + int \<times> int" where
  "propagate_candidate idx y x offset =
     ebind (getitem2 idx (fst (propagate_neighbor idx y x offset))
                         (snd (propagate_neighbor idx y x offset))) (\<lambda>(nv, nu).
     let v = int32 (nv - fst offset); u = int32 (nu - snd offset) in
     Inr (min (shape0 idx - 1) (max v 0), min (shape1 idx - 1) (max u 0)))"

text \<open>
  The greedy acceptance shared by propagation and random search:
  \<open>if score > scores[y, x]: scores[y, x] = score; indices[y, x] = [v, u]\<close>.
\<close>

definition accept :: "buffer \<Rightarrow> int \<Rightarrow> int \<Rightarrow> int \<Rightarrow> int \<Rightarrow> fval \<Rightarrow> error + buffer" where
  "accept first y x v u score =
     ebind (getitem2 (scores first) y x) (\<lambda>old.
     if fgt score old then
       ebind (setitem2 (scores first) y x score) (\<lambda>sc.
       ebind (setitem2 (indices first) y x (v, u)) (\<lambda>idx.
       Inr (first\<lparr>scores := sc, indices := idx\<rparr>)))
     else Inr first)"

definition propagate_offset ::
  "buffer \<Rightarrow> int \<Rightarrow> int \<Rightarrow> int \<Rightarrow> int \<times> int \<Rightarrow> buffer \<Rightarrow> error + buffer" where
  "propagate_offset second pad y x offset first =
     ebind (propagate_candidate (indices first) y x offset) (\<lambda>(v, u).
     ebind (patches_score first y x second v u pad) (\<lambda>score.
     accept first y x v u score))"

definition patches_propagate :: "buffer \<Rightarrow> buffer \<Rightarrow> int \<Rightarrow> int \<Rightarrow> error + buffer" where
  "patches_propagate first second i pad =
     (let evn = (i mod 2 = 0) in
      efold (\<lambda>y. efold (\<lambda>x. efold (propagate_offset second pad y x) (propagate_offsets evn))
                    (scan_range evn (shape1 (indices first))))
            (scan_range evn (shape0 (indices first))) first)"

subsection \<open>Model.patches\_search\<close>

text \<open>
  The random source is a sequence \<open>g\<close> of raw natural numbers and a position \<open>k\<close> in
  it; each call of \<open>np.random.randint(low, high)\<close> consumes one raw number and returns
  an integer of \<open>[low, high)\<close>, or raises when that interval is empty.
\<close>

definition randint :: "int \<Rightarrow> int \<Rightarrow> nat \<Rightarrow> error + int" where
  "randint low high raw =
     (if low < high then Inr (low + int raw mod (high - low)) else Inl ValueError)"

definition search_candidate ::
  "(nat \<Rightarrow> nat) \<Rightarrow> (int \<times> int) list list \<Rightarrow> int \<Rightarrow> int \<Rightarrow> int \<Rightarrow> nat
     \<Rightarrow> error + (int \<times> int) \<times> nat" where
  "search_candidate g idx rad y x k =
     (if rad > 0 then
        ebind (getitem2 idx y x) (\<lambda>(v, u).
        ebind (randint (- rad) rad (g k)) (\<lambda>dv.
        ebind (randint (- rad) rad (g (k + 1))) (\<lambda>du.
        Inr ((min (shape0 idx - 1) (max (v + dv) 0),
              min (shape1 idx - 1) (max (u + du) 0)), k + 2))))
      else
        ebind (randint 0 (shape0 idx) (g k)) (\<lambda>v.
        ebind (randint 0 (shape1 idx) (g (k + 1))) (\<lambda>u.
        Inr ((v, u), k + 2))))"

definition search_try ::
  "(nat \<Rightarrow> nat) \<Rightarrow> buffer \<Rightarrow> int \<Rightarrow> int \<Rightarrow> int \<Rightarrow> int \<Rightarrow> buffer \<times> nat
     \<Rightarrow> error + buffer \<times> nat" where
  "search_try g second rad pad y x = (\<lambda>(first, k).
     ebind (search_candidate g (indices first) rad y x k) (\<lambda>((v, u), k').
     ebind (patches_score first y x second v u pad) (\<lambda>score.
     ebind (accept first y x v u score) (\<lambda>first'.
     Inr (first', k')))))"

definition patches_search ::
  "(nat \<Rightarrow> nat) \<Rightarrow> buffer \<Rightarrow> buffer \<Rightarrow> int \<Rightarrow> int \<Rightarrow> int \<Rightarrow> nat \<Rightarrow> error + buffer \<times> nat" where
  "patches_search g first second n_times rad pad k =
     efold (\<lambda>y. efold (\<lambda>x. efold (\<lambda>_. search_try g second rad pad y x) (py_range 0 n_times 1))
                   (py_range 0 (shape1 (indices first)) 1))
           (py_range 0 (shape0 (indices first)) 1) (first, k)"

subsection \<open>NeuralAnalogy.compute\_flow: the refinement loop\<close>

text \<open>
  \<open>r = first.radius if first.radius > 0 else 12\<close>, and the search runs \<open>r // 2\<close> times.
\<close>

definition search_times :: "int \<Rightarrow> int" where
  "search_times rad = (let r = (if rad > 0 then rad else 12) in r div 2)"

text \<open>
  One pass of \<open>for i in range(32)\<close>. The diagnostic images written before and after the
  loop and the progress line are output only and are not modelled.
\<close>

definition flow_iteration ::
  "(nat \<Rightarrow> nat) \<Rightarrow> buffer \<Rightarrow> int \<Rightarrow> buffer \<times> nat \<Rightarrow> error + buffer \<times> nat" where
  "flow_iteration g second i = (\<lambda>(first, k).
     ebind (if i mod 2 = 0
            then ebind (patches_propagate first second (i div 2) (padding first))
                       (\<lambda>first'. Inr (first', k))
            else Inr (first, k)) (\<lambda>(first, k).
     if i mod 2 = 1
     then patches_search g first second (search_times (radius first)) (radius first)
            (padding first) k
     else Inr (first, k)))"

definition compute_flow ::
  "(nat \<Rightarrow> nat) \<Rightarrow> buffer \<Rightarrow> buffer \<Rightarrow> nat \<Rightarrow> error + buffer \<times> nat" where
  "compute_flow g first second k =
     ebind (patches_initialize first second (padding first)) (\<lambda>first'.
     efold (flow_iteration g second) (py_range 0 32 1) (first', k))"

subsection \<open>Buffer.\_\_init\_\_\<close>

text \<open>
  \<open>patches_norm = np.sqrt(np.sum(patches ** 2.0, axis=(2,), keepdims=True))\<close> and
  \<open>patches / patches_norm\<close>: every descriptor is divided by its own norm.
\<close>

definition patches_norm :: "(real \<Rightarrow> fval) \<Rightarrow> fval list \<Rightarrow> fval" where
  "patches_norm rnd d =
     fround rnd (fsqrt (rsum rnd (map (\<lambda>x. fround rnd (fmul x x)) d)))"

definition normalize_patches ::
  "(real \<Rightarrow> fval) \<Rightarrow> fval list list list \<Rightarrow> fval list list list" where
  "normalize_patches rnd patches =
     map (map (\<lambda>d. map (\<lambda>x. fround rnd (fdiv x (patches_norm rnd d))) d)) patches"

text \<open>The identity coordinates: cell \<open>(y, x)\<close> holds \<open>(y, x)\<close>.\<close>

definition identity_indices :: "nat \<Rightarrow> nat \<Rightarrow> (int \<times> int) list list" where
  "identity_indices H W = map (\<lambda>y. map (\<lambda>x. (int y, int x)) [0..<W]) [0..<H]"

text \<open>
  The constructor. The per-cell weights, which the source derives from the features with
  torch's mean, standard deviation and exponential, are passed in as the array \<open>wts\<close>.
\<close>

definition Buffer_init ::
  "(real \<Rightarrow> fval) \<Rightarrow> fval list list list \<Rightarrow> fval list list list \<Rightarrow> fval list list \<Rightarrow> fval
     \<Rightarrow> int \<Rightarrow> int \<Rightarrow> buffer" where
  "Buffer_init rnd features patches wts wt rad pad =
     \<lparr>features_orign = features,
      patches_orign = normalize_patches rnd patches,
      patches_repro = normalize_patches rnd patches,
      weights = wts, weight = wt, radius = rad, padding = pad,
      indices = identity_indices (nat (shape0 features)) (nat (shape1 features)),
      scores = replicate (nat (shape0 features)) (replicate (nat (shape1 features)) (Fin 0))\<rparr>"

subsection \<open>NeuralAnalogy.extract\_patches\<close>

text \<open>\<open>np.pad(..., mode='edge')\<close>: a coordinate outside the array reads the nearest edge cell.\<close>

definition edge_index :: "nat \<Rightarrow> int \<Rightarrow> nat" where
  "edge_index n i = nat (min (int n - 1) (max i 0))"

text \<open>
  The descriptor of cell \<open>(y, x)\<close> is the window of side \<open>2p + 1\<close> around it in the padded
  array, flattened row by row with the channels innermost. A negative padding is
  refused by \<open>np.pad\<close>; an array without cells, or with a NaN or an infinity in it, is
  refused by the input check of \<open>extract_patches_2d\<close>.
\<close>

definition extract_patches :: "fval list list list \<Rightarrow> int \<Rightarrow> error + fval list list list" where
  "extract_patches feature p =
     (if p < 0 \<or> length feature = 0 \<or> shape1 feature = 0
         \<or> \<not> list_all (list_all (list_all is_finite)) feature
      then Inl ValueError
      else Inr (map (\<lambda>y. map (\<lambda>x.
                  concat (map (\<lambda>dy. concat (map (\<lambda>dx.
                    feature ! edge_index (length feature) (int y + dy - p)
                            ! edge_index (nat (shape1 feature)) (int x + dx - p))
                    [0..2 * p])) [0..2 * p]))
                  [0..<nat (shape1 feature)]) [0..<length feature]))"

subsection \<open>NeuralAnalogy.merge\_flow\<close>

text \<open>
  \<open>scipy.ndimage.interpolation.zoom(indices, zoom=(2, 2, 1), order=0)\<close>: an axis of
  length \<open>n\<close> becomes one of length \<open>2n\<close>, and output position \<open>o\<close> reads the input at
  \<open>o * (n - 1) / (2n - 1)\<close> rounded to the nearest integer. The last axis (the pair)
  is copied.
\<close>

definition zoom_coord :: "nat \<Rightarrow> nat \<Rightarrow> nat" where
  "zoom_coord n out = (2 * out * (n - 1) + (2 * n - 1)) div (2 * (2 * n - 1))"

definition zoom_axis :: "'a list \<Rightarrow> 'a list" where
  "zoom_axis xs = map (\<lambda>out. xs ! zoom_coord (length xs) out) [0..<2 * length xs]"

definition zoom :: "'a list list \<Rightarrow> 'a list list" where
  "zoom a = zoom_axis (map zoom_axis a)"

text \<open>
  \<open>features_warpd[0, :, y, x] = features_other[0, :, v, u]\<close> for every cell, starting
  from an array of zeros of the shape of this level's features.
\<close>

definition warp_cell ::
  "(int \<times> int) list list \<Rightarrow> fval list list list \<Rightarrow> int \<Rightarrow> int \<Rightarrow> fval list list list
     \<Rightarrow> error + fval list list list" where
  "warp_cell zoomed features_other y x features_warpd =
     ebind (getitem2 zoomed y x) (\<lambda>(v, u).
     ebind (getitem2 features_other v u) (\<lambda>vec.
     ebind (getitem2 features_warpd y x) (\<lambda>old.
     if length vec = length old then setitem2 features_warpd y x vec
     else if length vec = 1 then setitem2 features_warpd y x (replicate (length old) (hd vec))
     else Inl ValueError)))"

definition warp_features ::
  "(int \<times> int) list list \<Rightarrow> fval list list list \<Rightarrow> fval list list list
     \<Rightarrow> error + fval list list list" where
  "warp_features zoomed features_this features_other =
     efold (\<lambda>y. efold (\<lambda>x. warp_cell zoomed features_other y x)
                   (py_range 0 (shape1 features_this) 1))
           (py_range 0 (shape0 features_this) 1)
           (map (map (map (\<lambda>_. Fin 0))) features_this)"

text \<open>
  \<open>features_repro = features * w + (1.0 - w) * features_warpd\<close>, the weight of a cell
  applying to all its channels. The three arrays have the same spatial shape: the
  constructor builds the weights from the features.
\<close>

definition blend_features ::
  "fval list list list \<Rightarrow> fval list list \<Rightarrow> fval list list list \<Rightarrow> fval list list list" where
  "blend_features features w features_warpd =
     map2 (\<lambda>(frow, wrow) drow.
       map2 (\<lambda>(fcell, wc) dcell.
         map2 (\<lambda>fv dv. fadd (fmul fv wc) (fmul (fsub (Fin 1) wc) dv)) fcell dcell)
         (zip frow wrow) drow)
       (zip features w) features_warpd"

definition merge_flow ::
  "(real \<Rightarrow> fval) \<Rightarrow> buffer \<Rightarrow> buffer option \<Rightarrow> buffer \<Rightarrow> error + buffer" where
  "merge_flow rnd this parent other =
     (case parent of
        None \<Rightarrow> Inr this
      | Some par \<Rightarrow>
          let zoomed = zoom (map (map (\<lambda>(v, u). (int32 (v * 2), int32 (u * 2))))
                               (indices par));
              p = padding this
          in if (shape0 (indices this), shape1 (indices this)) \<noteq> (shape0 zoomed, shape1 zoomed)
             then Inl AssertionError
             else
               ebind (warp_features zoomed (features_orign this) (features_orign other))
                 (\<lambda>features_warpd.
               ebind (extract_patches
                        (blend_features (features_orign this) (weights this) features_warpd) p)
                 (\<lambda>patches.
               Inr (this\<lparr>indices := zoomed,
                        patches_repro := normalize_patches rnd patches\<rparr>))))"

subsection \<open>Shapes, bounds and call sequences\<close>

text \<open>An array of \<open>H\<close> rows of \<open>W\<close> cells.\<close>

definition rect :: "nat \<Rightarrow> nat \<Rightarrow> 'a list list \<Rightarrow> bool" where
  "rect H W a = (length a = H \<and> list_all (\<lambda>row. length row = W) a)"

text \<open>A patch bank of \<open>H\<close> by \<open>W\<close> descriptors of length \<open>D\<close>.\<close>

definition bank :: "nat \<Rightarrow> nat \<Rightarrow> nat \<Rightarrow> 'a list list list \<Rightarrow> bool" where
  "bank H W D b = (rect H W b \<and> list_all (list_all (\<lambda>d. length d = D)) b)"

text \<open>A correspondence field of shape \<open>H\<close> by \<open>W\<close>: its indices and its scores.\<close>

definition field :: "nat \<Rightarrow> nat \<Rightarrow> buffer \<Rightarrow> bool" where
  "field H W b = (rect H W (indices b) \<and> rect H W (scores b))"

text \<open>Every stored pair lies in \<open>[0, H) \<times> [0, W)\<close>.\<close>

definition in_bounds :: "nat \<Rightarrow> nat \<Rightarrow> (int \<times> int) list list \<Rightarrow> bool" where
  "in_bounds H W idx =
     list_all (list_all (\<lambda>(v, u). 0 \<le> v \<and> v < int H \<and> 0 \<le> u \<and> u < int W)) idx"


text \<open>A coordinate clamped into an axis of length \<open>n\<close>.\<close>

definition clamp :: "nat \<Rightarrow> int \<Rightarrow> int" where
  "clamp n v = min (int n - 1) (max v 0)"

text \<open>\<open>a \<ge> b\<close> as the greedy acceptance leaves it: unchanged, or strictly greater.\<close>

definition fge :: "fval \<Rightarrow> fval \<Rightarrow> bool" where
  "fge a b = (a = b \<or> fgt a b)"

text \<open>
  A call of one of the two mutation steps with its arguments, and a finite sequence of
  such calls on the same field against the same opposing level.
\<close>

datatype call = Propagate int int | Search int int int

fun run_call :: "(nat \<Rightarrow> nat) \<Rightarrow> buffer \<Rightarrow> call \<Rightarrow> buffer \<times> nat \<Rightarrow> error + buffer \<times> nat" where
  "run_call g second (Propagate i pad) (first, k) =
     ebind (patches_propagate first second i pad) (\<lambda>first'. Inr (first', k))"
| "run_call g second (Search n_times rad pad) (first, k) =
     patches_search g first second n_times rad pad k"

definition run_calls ::
  "(nat \<Rightarrow> nat) \<Rightarrow> buffer \<Rightarrow> call list \<Rightarrow> buffer \<times> nat \<Rightarrow> error + buffer \<times> nat" where
  "run_calls g second calls = efold (run_call g second) calls"

subsection \<open>A small pair of levels\<close>

text \<open>
  Two levels of shape 2 by 2 with unit descriptors of length two, used to run the
  operations on concrete data.
\<close>

definition demo_bank :: "fval list list list" where
  "demo_bank = [[[Fin 1, Fin 0], [Fin 0, Fin 1]], [[Fin (3/5), Fin (4/5)], [Fin (- 1), Fin 0]]]"

definition demo_first :: buffer where
  "demo_first =
     \<lparr>features_orign = [[[Fin 1], [Fin 2]], [[Fin 3], [Fin 4]]],
      patches_orign = demo_bank, patches_repro = demo_bank,
      weights = [[Fin 1, Fin 1], [Fin 1, Fin 1]], weight = Fin 1, radius = 4, padding = 1,
      indices = identity_indices 2 2, scores = [[Fin 0, Fin 0], [Fin 0, Fin 0]]\<rparr>"

definition demo_second :: buffer where
  "demo_second = demo_first\<lparr>patches_orign := rev demo_bank, patches_repro := map rev demo_bank\<rparr>"

text \<open>
  A random source, a sequence of two calls, and the fields the demo levels reach: after
  the initialisation, after the two calls on the fresh field, and after the two calls on
  the initialised field.
\<close>

definition demo_gen :: "nat \<Rightarrow> nat" where
  "demo_gen k = 3 * k + 1"

definition demo_calls :: "call list" where
  "demo_calls = [Propagate 0 1, Search 2 4 1]"

definition demo_init :: buffer where
  "demo_init = demo_first\<lparr>scores := [[Fin (3/10), Fin 0], [Fin 0, Fin (- (3/10))]]\<rparr>"

definition demo_swept :: buffer where
  "demo_swept = demo_first\<lparr>scores := [[Fin (3/10), Fin (9/10)], [Fin (9/10), Fin 0]],
                             indices := [[(0, 0), (1, 1)], [(1, 1), (1, 1)]]\<rparr>"

definition demo_refined :: buffer where
  "demo_refined = demo_first\<lparr>scores := [[Fin (3/10), Fin (9/10)], [Fin (9/10), Fin 0]],
                               indices := [[(0, 0), (1, 1)], [(1, 1), (1, 0)]]\<rparr>"

text \<open>
  A parent level of shape 1 by 2, a child level of shape 2 by 4, and the child after
  the merge with that parent (the child also serving as the opposing level).
\<close>

definition demo_parent :: buffer where
  "demo_parent =
     \<lparr>features_orign = [[[Fin 1], [Fin 2]]],
      patches_orign = [[[Fin 1], [Fin 1]]], patches_repro = [[[Fin 1], [Fin 1]]],
      weights = [[Fin 1, Fin 1]], weight = Fin 1, radius = - 1, padding = 0,
      indices = identity_indices 1 2, scores = [[Fin 0, Fin 0]]\<rparr>"

definition demo_child :: buffer where
  "demo_child =
     \<lparr>features_orign = [[[Fin 1], [Fin 2], [Fin 3], [Fin 4]], [[Fin 5], [Fin 6], [Fin 7], [Fin 8]]],
      patches_orign = replicate 2 (replicate 4 [Fin 1]),
      patches_repro = replicate 2 (replicate 4 [Fin 1]),
      weights = replicate 2 (replicate 4 (Fin (1/2))), weight = Fin 1, radius = 4, padding = 0,
      indices = identity_indices 2 4, scores = replicate 2 (replicate 4 (Fin 0))\<rparr>"

definition demo_merged :: buffer where
  "demo_merged =
     demo_child\<lparr>indices := [[(0, 0), (0, 0), (0, 2), (0, 2)], [(0, 0), (0, 0), (0, 2), (0, 2)]],
                 patches_repro := normalize_patches Fin
                   [[[Fin 1], [Fin (3/2)], [Fin 3], [Fin (7/2)]],
                    [[Fin 3], [Fin (7/2)], [Fin 5], [Fin (11/2)]]]\<rparr>"

text \<open>
  Two freshly constructed levels of different shapes, 1 by 2 and 1 by 1, with the
  radius of the coarsest level; the demo field after one propagation sweep; the small
  level after its initialisation against the wide one; and the demo field after the
  step of the even sweep at cell \<open>(0, 1)\<close> with offset \<open>(-1, 0)\<close>.
\<close>

definition wide_level :: buffer where
  "wide_level =
     Buffer_init Fin [[[Fin 1], [Fin 1]]] [[[Fin 1], [Fin 1]]] [[Fin 1, Fin 1]] (Fin 1) (- 1) 1"

definition small_level :: buffer where
  "small_level = Buffer_init Fin [[[Fin 1]]] [[[Fin (- 1)]]] [[Fin 1]] (Fin 1) (- 1) 1"

definition demo_propagated :: buffer where
  "demo_propagated = demo_first\<lparr>scores := [[Fin 0, Fin (9/10)], [Fin (9/10), Fin 0]],
                                  indices := [[(0, 0), (1, 1)], [(1, 1), (1, 1)]]\<rparr>"


definition demo_step :: buffer where
  "demo_step = demo_first\<lparr>scores := [[Fin 0, Fin (9/10)], [Fin 0, Fin 0]],
                            indices := [[(0, 0), (1, 1)], [(1, 0), (1, 1)]]\<rparr>"

text \<open>
  A level of shape 1 by 4 matched against itself, and its field after the even sweep:
  cell \<open>(0, 2)\<close> ends with \<open>(0, 3)\<close>, the index \<open>(0, 2)\<close> that the same sweep has just
  stored at its left neighbour, shifted by one; before the sweep that neighbour held
  \<open>(0, 0)\<close>.
\<close>

definition chain_level :: buffer where
  "chain_level =
     \<lparr>features_orign = [[[Fin 0], [Fin 1], [Fin 2], [Fin 3]]],
      patches_orign = [[[Fin 0], [Fin 1], [Fin 2], [Fin 3]]],
      patches_repro = [[[Fin 0], [Fin 1], [Fin 2], [Fin 3]]],
      weights = [[Fin 1, Fin 1, Fin 1, Fin 1]], weight = Fin 1, radius = 4, padding = 1,
      indices = [[(0, 1), (0, 0), (0, 0), (0, 0)]],
      scores = [[Fin 0, Fin 0, Fin 0, Fin 0]]\<rparr>"

definition chain_swept :: buffer where
  "chain_swept = chain_level\<lparr>scores := [[Fin 0, Fin 2, Fin 6, Fin 9]],
                              indices := [[(0, 1), (0, 2), (0, 3), (0, 3)]]\<rparr>"

subsection \<open>Greedy acceptance as a relation\<close>

text \<open>
  \<open>greedy H W second f0 f\<close>: the field \<open>f\<close> is reached from \<open>f0\<close> by accepting, any
  number of times, a candidate \<open>(v, u)\<close> of \<open>[0, H) \<times> [0, W)\<close> for a cell \<open>(y, x)\<close> whose
  score against \<open>second\<close> strictly exceeds the stored one.
\<close>

inductive greedy :: "nat \<Rightarrow> nat \<Rightarrow> buffer \<Rightarrow> buffer \<Rightarrow> buffer \<Rightarrow> bool"
  for H W second f0 where
  greedy_refl: "greedy H W second f0 f0"
| greedy_step:
    "greedy H W second f0 f \<Longrightarrow> y < H \<Longrightarrow> x < W
     \<Longrightarrow> 0 \<le> v \<Longrightarrow> v < int H \<Longrightarrow> 0 \<le> u \<Longrightarrow> u < int W
     \<Longrightarrow> patches_score f (int y) (int x) second v u pad = Inr s
     \<Longrightarrow> fgt s (scores f ! y ! x)
     \<Longrightarrow> greedy H W second f0
           (f\<lparr>scores := (scores f)[y := (scores f ! y)[x := s]],
              indices := (indices f)[y := (indices f ! y)[x := (v, u)]]\<rparr>)"

text \<open>The stored score of cell \<open>(y, x)\<close> is the score of its stored index pair.\<close>

definition consistent :: "nat \<Rightarrow> nat \<Rightarrow> buffer \<Rightarrow> buffer \<Rightarrow> nat \<Rightarrow> nat \<Rightarrow> bool" where
  "consistent H W second f y x =
     (patches_score f (int y) (int x) second
        (fst (indices f ! y ! x)) (snd (indices f ! y ! x)) 0 = Inr (scores f ! y ! x))"

text \<open>
  What the loops leave untouched: the shape of the field and the patch banks (and, for
  the initialisation, the indices).
\<close>

definition init_inv :: "nat \<Rightarrow> nat \<Rightarrow> buffer \<Rightarrow> buffer \<Rightarrow> bool" where
  "init_inv H W first t =
     (field H W t \<and> indices t = indices first \<and> patches_orign t = patches_orign first
      \<and> patches_repro t = patches_repro first)"

definition level_inv :: "nat \<Rightarrow> nat \<Rightarrow> buffer \<Rightarrow> buffer \<Rightarrow> bool" where
  "level_inv H W first t =
     (field H W t \<and> patches_orign t = patches_orign first
      \<and> patches_repro t = patches_repro first)"

section \<open>Properties\<close>

subsection \<open>Exceptions and loops: basic facts\<close>

lemma ebind_Inr [simp]: "ebind (Inr x) f = f x"
  by (simp add: ebind_def)

lemma ebind_Inl [simp]: "ebind (Inl e) f = Inl e"
  by (simp add: ebind_def)

lemma ebind_eq_Inr: "ebind m f = Inr y \<longleftrightarrow> (\<exists>x. m = Inr x \<and> f x = Inr y)"
  by (cases m) simp_all

lemma efold_invariant:
  assumes "efold f xs s = Inr s'" and "I s"
    and "\<And>x t t'. x \<in> set xs \<Longrightarrow> I t \<Longrightarrow> f x t = Inr t' \<Longrightarrow> I t'"
  shows "I s'"
  using assms
proof (induction xs arbitrary: s)
  case Nil
  then show ?case by simp
next
  case (Cons x xs)
  from Cons.prems(1) obtain t where t: "f x s = Inr t" and rest: "efold f xs t = Inr s'"
    by (auto simp: ebind_eq_Inr)
  have "I t" using Cons.prems(2,3) t by auto
  with rest Cons.prems(3) show ?case
    by (intro Cons.IH[of t]) auto
qed

lemma efold_total:
  assumes "I s"
    and "\<And>x t. x \<in> set xs \<Longrightarrow> I t \<Longrightarrow> \<exists>t'. f x t = Inr t' \<and> I t'"
  shows "\<exists>s'. efold f xs s = Inr s' \<and> I s'"
  using assms
proof (induction xs arbitrary: s)
  case Nil
  then show ?case by simp
next
  case (Cons x xs)
  from Cons.prems obtain t where t: "f x s = Inr t" "I t"
    by (meson list.set_intros(1))
  have "\<exists>s'. efold f xs t = Inr s' \<and> I s'"
    using t(2) Cons.prems(2) by (intro Cons.IH) auto
  with t show ?case by simp
qed

lemma efold2_invariant:
  assumes run: "efold (\<lambda>y. efold (f y) xs) ys s = Inr s'" and "I s"
    and step: "\<And>y x t t'. y \<in> set ys \<Longrightarrow> x \<in> set xs \<Longrightarrow> I t \<Longrightarrow> f y x t = Inr t' \<Longrightarrow> I t'"
  shows "I s'"
proof (rule efold_invariant [where I = I, OF run \<open>I s\<close>])
  fix y t t'
  assume "y \<in> set ys" "I t" "efold (f y) xs t = Inr t'"
  then show "I t'"
    by (auto intro: efold_invariant [where I = I] step)
qed

lemma efold3_invariant:
  assumes run: "efold (\<lambda>y. efold (\<lambda>x. efold (f y x) zs) xs) ys s = Inr s'" and "I s"
    and step: "\<And>y x z t t'. y \<in> set ys \<Longrightarrow> x \<in> set xs \<Longrightarrow> z \<in> set zs \<Longrightarrow> I t
                 \<Longrightarrow> f y x z t = Inr t' \<Longrightarrow> I t'"
  shows "I s'"
proof (rule efold2_invariant [where I = I, OF run \<open>I s\<close>])
  fix y x t t'
  assume "y \<in> set ys" "x \<in> set xs" "I t" "efold (f y x) zs t = Inr t'"
  then show "I t'"
    by (auto intro: efold_invariant [where I = I] step)
qed

lemma efold2_total:
  assumes "I s"
    and step: "\<And>y x t. y \<in> set ys \<Longrightarrow> x \<in> set xs \<Longrightarrow> I t \<Longrightarrow> \<exists>t'. f y x t = Inr t' \<and> I t'"
  shows "\<exists>s'. efold (\<lambda>y. efold (f y) xs) ys s = Inr s' \<and> I s'"
  by (rule efold_total [where I = I, OF \<open>I s\<close>]) (auto intro: efold_total [where I = I] step)

lemma efold3_total:
  assumes "I s"
    and step: "\<And>y x z t. y \<in> set ys \<Longrightarrow> x \<in> set xs \<Longrightarrow> z \<in> set zs \<Longrightarrow> I t
                 \<Longrightarrow> \<exists>t'. f y x z t = Inr t' \<and> I t'"
  shows "\<exists>s'. efold (\<lambda>y. efold (\<lambda>x. efold (f y x) zs) xs) ys s = Inr s' \<and> I s'"
  by (rule efold2_total [where I = I, OF \<open>I s\<close>]) (auto intro: efold_total [where I = I] step)

subsection \<open>Ranges: basic facts\<close>

lemma py_range_up: "py_range 0 n 1 = map int [0..<nat n]"
  by (auto simp: py_range_def Let_def)

lemma py_range_down: "py_range (n - 1) (- 1) (- 1) = rev (map int [0..<nat n])"
proof (cases "0 < n")
  case True
  have "map (\<lambda>k. n - 1 + int k * - 1) [0..<nat n] = rev (map int [0..<nat n])"
    by (rule nth_equalityI) (auto simp: rev_nth)
  with True show ?thesis by (simp add: py_range_def Let_def)
next
  case False
  then show ?thesis by (simp add: py_range_def Let_def)
qed

lemma scan_range_eq:
  "scan_range e (int n) = (if e then map int [0..<n] else rev (map int [0..<n]))"
  by (simp add: scan_range_def py_range_up py_range_down)

lemma in_scan_range: "y \<in> set (scan_range e (int n)) \<Longrightarrow> \<exists>k<n. y = int k"
  by (auto simp: scan_range_eq split: if_splits)

subsection \<open>Subscripts: basic facts\<close>

lemma py_index_nat [simp]: "k < n \<Longrightarrow> py_index n (int k) = Inr k"
  by (simp add: py_index_def)

lemma getitem_nat [simp]: "k < length xs \<Longrightarrow> getitem xs (int k) = Inr (xs ! k)"
  by (simp add: getitem_def)

lemma getitem2_nat:
  "y < length a \<Longrightarrow> x < length (a ! y) \<Longrightarrow> getitem2 a (int y) (int x) = Inr (a ! y ! x)"
  by (simp add: getitem2_def)

lemma setitem2_nat:
  "y < length a \<Longrightarrow> x < length (a ! y)
     \<Longrightarrow> setitem2 a (int y) (int x) v = Inr (a[y := (a ! y)[x := v]])"
  by (simp add: setitem2_def)

lemma rect_length: "rect H W a \<Longrightarrow> length a = H"
  by (simp add: rect_def)

lemma rect_row: "rect H W a \<Longrightarrow> y < H \<Longrightarrow> length (a ! y) = W"
  by (auto simp: rect_def list_all_length)

lemma rect_update: "rect H W a \<Longrightarrow> rect H W (a[y := (a ! y)[x := v]])"
  by (cases "y < length a") (auto simp: rect_def list_all_length nth_list_update)

lemma shape0_rect: "rect H W a \<Longrightarrow> shape0 a = int H"
  by (simp add: rect_def shape0_def)

lemma shape1_rect: "rect H W a \<Longrightarrow> 0 < H \<Longrightarrow> shape1 a = int W"
  by (cases a) (auto simp: rect_def shape1_def)

lemma getitem2_rect:
  "rect H W a \<Longrightarrow> y < H \<Longrightarrow> x < W \<Longrightarrow> getitem2 a (int y) (int x) = Inr (a ! y ! x)"
  by (simp add: getitem2_nat rect_length rect_row)

lemma setitem2_rect:
  "rect H W a \<Longrightarrow> y < H \<Longrightarrow> x < W
     \<Longrightarrow> setitem2 a (int y) (int x) v = Inr (a[y := (a ! y)[x := v]])"
  by (simp add: setitem2_nat rect_length rect_row)

lemma nth_update2:
  "rect H W a \<Longrightarrow> y' < H \<Longrightarrow> x' < W
     \<Longrightarrow> a[y := (a ! y)[x := v]] ! y' ! x' = (if y' = y \<and> x' = x then v else a ! y' ! x')"
  by (cases "y < length a"; cases "x < length (a ! y)")
     (auto simp: nth_list_update rect_length rect_row)

subsection \<open>Every sweep is a sequence of greedy acceptances\<close>

lemma greedy_field: "greedy H W second f0 f \<Longrightarrow> field H W f0 \<Longrightarrow> field H W f"
  by (induction rule: greedy.induct) (auto simp: field_def rect_update)

lemma greedy_trans:
  "greedy H W second f1 f2 \<Longrightarrow> greedy H W second f0 f1 \<Longrightarrow> greedy H W second f0 f2"
  by (induction rule: greedy.induct) (auto intro: greedy.intros)

lemma accept_greedy:
  assumes g: "greedy H W second f0 f" and f0: "field H W f0"
    and cell: "y < H" "x < W"
    and cand: "0 \<le> v" "v < int H" "0 \<le> u" "u < int W"
    and score: "patches_score f (int y) (int x) second v u pad = Inr s"
    and acc: "accept f (int y) (int x) v u s = Inr f'"
  shows "greedy H W second f0 f'"
proof -
  have f: "rect H W (indices f)" "rect H W (scores f)"
    using greedy_field [OF g f0] by (simp_all add: field_def)
  show ?thesis
  proof (cases "fgt s (scores f ! y ! x)")
    case True
    with acc f cell have "f' = f\<lparr>scores := (scores f)[y := (scores f ! y)[x := s]],
        indices := (indices f)[y := (indices f ! y)[x := (v, u)]]\<rparr>"
      by (simp add: accept_def getitem2_rect setitem2_rect)
    with greedy_step [OF g cell cand score True] show ?thesis by simp
  next
    case False
    with acc f cell have "f' = f"
      by (simp add: accept_def getitem2_rect)
    with g show ?thesis by simp
  qed
qed

lemma clamp_bounds: "0 < n \<Longrightarrow> 0 \<le> min (int n - 1) (max v 0) \<and> min (int n - 1) (max v 0) < int n"
  by auto

lemma propagate_neighbor_nat:
  assumes "rect H W idx" "y < H" "x < W"
  shows "\<exists>ny<H. \<exists>nx<W. propagate_neighbor idx (int y) (int x) off = (int ny, int nx)"
proof -
  let ?ny = "nat (min (int H - 1) (max (int y + fst off) 0))"
  let ?nx = "nat (min (int W - 1) (max (int x + snd off) 0))"
  have "?ny < H" "?nx < W" using assms by auto
  moreover have "propagate_neighbor idx (int y) (int x) off = (int ?ny, int ?nx)"
    using assms by (simp add: propagate_neighbor_def shape0_rect shape1_rect)
  ultimately show ?thesis by blast
qed

lemma propagate_candidate_ok:
  assumes "rect H W idx" "y < H" "x < W"
  shows "\<exists>v u. propagate_candidate idx (int y) (int x) off = Inr (v, u)
           \<and> 0 \<le> v \<and> v < int H \<and> 0 \<le> u \<and> u < int W"
proof -
  from propagate_neighbor_nat [OF assms] obtain ny nx where
    n: "ny < H" "nx < W" "propagate_neighbor idx (int y) (int x) off = (int ny, int nx)"
    by blast
  obtain nv nu where p: "idx ! ny ! nx = (nv, nu)" by (cases "idx ! ny ! nx")
  have "0 < H" "0 < W" using assms by auto
  then show ?thesis
    using assms(1) n p clamp_bounds [of H "int32 (nv - fst off)"]
      clamp_bounds [of W "int32 (nu - snd off)"]
    by (simp add: propagate_candidate_def getitem2_rect shape0_rect shape1_rect Let_def)
qed

lemma randint_bounds:
  assumes "low < high"
  shows "\<exists>r. randint low high raw = Inr r \<and> low \<le> r \<and> r < high"
proof -
  have "0 \<le> int raw mod (high - low)" "int raw mod (high - low) < high - low"
    using assms by simp_all
  with assms show ?thesis by (simp add: randint_def)
qed

lemma search_candidate_ok:
  assumes "rect H W idx" "y < H" "x < W"
  shows "\<exists>v u. search_candidate g idx rad (int y) (int x) k = Inr ((v, u), k + 2)
           \<and> 0 \<le> v \<and> v < int H \<and> 0 \<le> u \<and> u < int W"
proof (cases "rad > 0")
  case True
  obtain nv nu where p: "idx ! y ! x = (nv, nu)" by (cases "idx ! y ! x")
  from True obtain dv du where
    d: "randint (- rad) rad (g k) = Inr dv" "randint (- rad) rad (g (k + 1)) = Inr du"
    using randint_bounds [of "- rad" rad] by (metis neg_less_pos)
  have "0 < H" "0 < W" using assms by auto
  then show ?thesis
    using True assms p d clamp_bounds [of H "nv + dv"] clamp_bounds [of W "nu + du"]
    by (simp add: search_candidate_def getitem2_rect shape0_rect shape1_rect)
next
  case False
  have "0 < int H" "0 < int W" using assms by auto
  then obtain v u where
    d: "randint 0 (int H) (g k) = Inr v" "0 \<le> v" "v < int H"
       "randint 0 (int W) (g (k + 1)) = Inr u" "0 \<le> u" "u < int W"
    using randint_bounds [of 0 "int H"] randint_bounds [of 0 "int W"] by metis
  then show ?thesis
    using False assms
    by (simp add: search_candidate_def shape0_rect shape1_rect)
qed

lemma propagate_offset_greedy:
  assumes g: "greedy H W second f0 f" and f0: "field H W f0" and cell: "y < H" "x < W"
    and run: "propagate_offset second pad (int y) (int x) off f = Inr f'"
  shows "greedy H W second f0 f'"
proof -
  have idx: "rect H W (indices f)" using greedy_field [OF g f0] by (simp add: field_def)
  from propagate_candidate_ok [OF idx cell, of off] obtain v u where
    c: "propagate_candidate (indices f) (int y) (int x) off = Inr (v, u)"
    and b: "0 \<le> v" "v < int H" "0 \<le> u" "u < int W" by blast
  from run c obtain s where s: "patches_score f (int y) (int x) second v u pad = Inr s"
    and a: "accept f (int y) (int x) v u s = Inr f'"
    by (auto simp: propagate_offset_def ebind_eq_Inr)
  show ?thesis by (rule accept_greedy [OF g f0 cell b s a])
qed

lemma search_try_greedy:
  assumes g: "greedy H W second f0 f" and f0: "field H W f0" and cell: "y < H" "x < W"
    and run: "search_try gen second rad pad (int y) (int x) (f, k) = Inr (f', k')"
  shows "greedy H W second f0 f'"
proof -
  have idx: "rect H W (indices f)" using greedy_field [OF g f0] by (simp add: field_def)
  from search_candidate_ok [OF idx cell, of gen rad k] obtain v u where
    c: "search_candidate gen (indices f) rad (int y) (int x) k = Inr ((v, u), k + 2)"
    and b: "0 \<le> v" "v < int H" "0 \<le> u" "u < int W" by blast
  from run c obtain s where s: "patches_score f (int y) (int x) second v u pad = Inr s"
    and a: "accept f (int y) (int x) v u s = Inr f'"
    by (auto simp: search_try_def ebind_eq_Inr)
  show ?thesis by (rule accept_greedy [OF g f0 cell b s a])
qed

lemma loop_rows: "rect H W a \<Longrightarrow> y \<in> set (py_range 0 (shape0 a) 1) \<Longrightarrow> \<exists>k<H. y = int k"
  by (auto simp: shape0_rect py_range_up)

lemma shape1_empty: "rect 0 W a \<Longrightarrow> shape1 a = 0"
  by (simp add: rect_def shape1_def)

lemma loop_cols: "rect H W a \<Longrightarrow> x \<in> set (py_range 0 (shape1 a) 1) \<Longrightarrow> \<exists>k<W. x = int k"
  by (cases "0 < H") (auto simp: shape1_rect shape1_empty py_range_up)

lemma scan_rows: "rect H W a \<Longrightarrow> y \<in> set (scan_range e (shape0 a)) \<Longrightarrow> \<exists>k<H. y = int k"
  by (auto simp: shape0_rect dest: in_scan_range)

lemma scan_cols: "rect H W a \<Longrightarrow> x \<in> set (scan_range e (shape1 a)) \<Longrightarrow> \<exists>k<W. x = int k"
proof (cases "0 < H")
  case True
  assume "rect H W a" "x \<in> set (scan_range e (shape1 a))"
  with True show ?thesis by (auto simp: shape1_rect dest: in_scan_range)
next
  case False
  assume "rect H W a" "x \<in> set (scan_range e (shape1 a))"
  with False show ?thesis
    by (auto simp: shape1_empty scan_range_def py_range_def Let_def split: if_splits)
qed

lemma propagate_greedy:
  assumes f: "field H W first"
    and run: "patches_propagate first second i pad = Inr first'"
  shows "greedy H W second first first'"
proof -
  have idx: "rect H W (indices first)" using f by (simp add: field_def)
  show ?thesis
  proof (rule efold3_invariant [where I = "greedy H W second first",
        OF run [unfolded patches_propagate_def Let_def]])
    show "greedy H W second first first" by (rule greedy_refl)
  next
    fix y x z t t'
    assume "y \<in> set (scan_range (i mod 2 = 0) (shape0 (indices first)))"
      "x \<in> set (scan_range (i mod 2 = 0) (shape1 (indices first)))"
      "greedy H W second first t" "propagate_offset second pad y x z t = Inr t'"
    then show "greedy H W second first t'"
      using scan_rows [OF idx] scan_cols [OF idx] propagate_offset_greedy [OF _ f]
      by blast
  qed
qed

lemma search_greedy:
  assumes f: "field H W first"
    and run: "patches_search g first second n_times rad pad k = Inr (first', k')"
  shows "greedy H W second first first'"
proof -
  have idx: "rect H W (indices first)" using f by (simp add: field_def)
  have "greedy H W second first (fst (first', k'))"
  proof (rule efold3_invariant [where I = "\<lambda>t. greedy H W second first (fst t)",
        OF run [unfolded patches_search_def]])
    show "greedy H W second first (fst (first, k))" by (simp add: greedy_refl)
  next
    fix y x z t t'
    assume "y \<in> set (py_range 0 (shape0 (indices first)) 1)"
      "x \<in> set (py_range 0 (shape1 (indices first)) 1)"
      "greedy H W second first (fst t)" "search_try g second rad pad y x t = Inr t'"
    then obtain y' x' where "y' < H" "x' < W" "greedy H W second first (fst t)"
      "search_try g second rad pad (int y') (int x') (fst t, snd t) = Inr (fst t', snd t')"
      using loop_rows [OF idx] loop_cols [OF idx] by fastforce
    then show "greedy H W second first (fst t')"
      using search_try_greedy [OF _ f] by blast
  qed
  then show ?thesis by simp
qed

lemma run_call_greedy:
  assumes f0: "field H W f0" and g: "greedy H W second f0 f"
    and run: "run_call gen second c (f, k) = Inr (f', k')"
  shows "greedy H W second f0 f'"
proof -
  have f: "field H W f" by (rule greedy_field [OF g f0])
  have "greedy H W second f f'"
    using run f by (cases c) (auto simp: ebind_eq_Inr intro: propagate_greedy search_greedy)
  then show ?thesis using g by (rule greedy_trans)
qed

lemma run_calls_greedy:
  assumes f: "field H W first"
    and run: "run_calls gen second calls (first, k) = Inr (first', k')"
  shows "greedy H W second first first'"
proof -
  have "greedy H W second first (fst (first', k'))"
  proof (rule efold_invariant [where I = "\<lambda>t. greedy H W second first (fst t)",
        OF run [unfolded run_calls_def]])
    show "greedy H W second first (fst (first, k))" by (simp add: greedy_refl)
  next
    fix c t t'
    assume "greedy H W second first (fst t)" "run_call gen second c t = Inr t'"
    then show "greedy H W second first (fst t')"
      using run_call_greedy [OF f, of second "fst t" gen c "snd t" "fst t'" "snd t'"]
      by simp
  qed
  then show ?thesis by simp
qed

subsection \<open>What greedy acceptance preserves\<close>

lemma fgt_trans: "fgt a b \<Longrightarrow> fgt b c \<Longrightarrow> fgt a c"
  by (cases a; cases b; cases c) auto

lemma fge_refl: "fge a a"
  by (simp add: fge_def)

lemma fge_step: "fgt s a \<Longrightarrow> fge a b \<Longrightarrow> fge s b"
  by (auto simp: fge_def dest: fgt_trans)

lemma in_bounds_cell:
  "in_bounds H W idx \<Longrightarrow> y < length idx \<Longrightarrow> x < length (idx ! y)
     \<Longrightarrow> 0 \<le> fst (idx ! y ! x) \<and> fst (idx ! y ! x) < int H
       \<and> 0 \<le> snd (idx ! y ! x) \<and> snd (idx ! y ! x) < int W"
proof -
  assume "in_bounds H W idx" "y < length idx" "x < length (idx ! y)"
  then have "case idx ! y ! x of (v, u) \<Rightarrow> 0 \<le> v \<and> v < int H \<and> 0 \<le> u \<and> u < int W"
    by (simp add: in_bounds_def list_all_length)
  then show ?thesis by (simp add: case_prod_beta)
qed

lemma in_bounds_update:
  assumes "in_bounds H W idx" "0 \<le> v" "v < int H" "0 \<le> u" "u < int W"
  shows "in_bounds H W (idx[y := (idx ! y)[x := (v, u)]])"
proof (cases "y < length idx")
  case True
  with assms show ?thesis
    by (cases "x < length (idx ! y)")
       (auto simp: in_bounds_def list_all_length nth_list_update)
next
  case False
  with assms show ?thesis by (simp add: not_less list_update_beyond)
qed

lemma greedy_in_bounds:
  "greedy H W second f0 f \<Longrightarrow> in_bounds H W (indices f0) \<Longrightarrow> in_bounds H W (indices f)"
  by (induction rule: greedy.induct) (auto intro: in_bounds_update)

lemma greedy_mono:
  "greedy H W second f0 f \<Longrightarrow> field H W f0 \<Longrightarrow> y < H \<Longrightarrow> x < W
     \<Longrightarrow> fge (scores f ! y ! x) (scores f0 ! y ! x)"
proof (induction rule: greedy.induct)
  case greedy_refl
  then show ?case by (simp add: fge_refl)
next
  case (greedy_step f y' x' v u pad s)
  then have "rect H W (scores f)"
    using greedy_field [of H W second f0 f] by (simp add: field_def)
  with greedy_step show ?case
    by (auto simp: nth_update2 intro: fge_step)
qed

lemma patches_score_frame:
  "patches_orign f = patches_orign f' \<Longrightarrow> patches_repro f = patches_repro f'
     \<Longrightarrow> patches_score f y x second v u p = patches_score f' y x second v u p'"
  by (simp add: patches_score_def)

lemma greedy_consistent:
  "greedy H W second f0 f \<Longrightarrow> field H W f0 \<Longrightarrow> y < H \<Longrightarrow> x < W
     \<Longrightarrow> consistent H W second f0 y x \<Longrightarrow> consistent H W second f y x"
proof (induction rule: greedy.induct)
  case greedy_refl
  then show ?case by simp
next
  case (greedy_step f y' x' v u pad s)
  then have r: "rect H W (scores f)" "rect H W (indices f)"
    using greedy_field [of H W second f0 f] by (simp_all add: field_def)
  let ?f' = "f\<lparr>scores := (scores f)[y' := (scores f ! y')[x' := s]],
                indices := (indices f)[y' := (indices f ! y')[x' := (v, u)]]\<rparr>"
  have fr: "patches_score ?f' yy xx second a b 0
            = patches_score f yy xx second a b pad" for a b yy xx
    by (rule patches_score_frame) simp_all
  have fr0: "patches_score f yy xx second a b pad
            = patches_score f yy xx second a b 0" for a b yy xx
    by (rule patches_score_frame) simp_all
  show ?case
  proof (cases "y = y' \<and> x = x'")
    case True
    with greedy_step r show ?thesis
      by (simp add: consistent_def fr nth_update2)
  next
    case False
    with greedy_step r show ?thesis
      by (auto simp add: consistent_def fr fr0 nth_update2)
  qed
qed

subsection \<open>The score on well-shaped banks\<close>

lemma map2_fmul_nth:
  "length a = length b \<Longrightarrow> map2 fmul a b = map (\<lambda>k. fmul (a ! k) (b ! k)) [0..<length a]"
  by (rule nth_equalityI) simp_all

lemma tensor_mul_dot:
  "length a = length b \<Longrightarrow> \<exists>ab. tensor_mul a b = Inr ab \<and> fsum ab = dot a b"
  by (simp add: tensor_mul_def dot_def map2_fmul_nth)

lemma bank_cell:
  "bank H W D b \<Longrightarrow> y < H \<Longrightarrow> x < W
     \<Longrightarrow> getitem2 b (int y) (int x) = Inr (b ! y ! x) \<and> length (b ! y ! x) = D"
  by (auto simp: bank_def getitem2_rect list_all_length rect_length rect_row)

lemma patches_score_eq:
  assumes "bank H W D (patches_repro first)" "bank H W D (patches_orign first)"
    and "bank H2 W2 D (patches_orign second)" "bank H2 W2 D (patches_repro second)"
    and "y < H" "x < W" "v < H2" "u < W2"
  shows "patches_score first (int y) (int x) second (int v) (int u) pad =
           Inr (fmul (Fin 0.5)
             (fadd (dot (patches_repro first ! y ! x) (patches_orign second ! v ! u))
                   (dot (patches_orign first ! y ! x) (patches_repro second ! v ! u))))"
proof -
  let ?a = "patches_repro first ! y ! x" and ?b = "patches_orign second ! v ! u"
  let ?c = "patches_orign first ! y ! x" and ?d = "patches_repro second ! v ! u"
  have g: "getitem2 (patches_repro first) (int y) (int x) = Inr ?a"
    "getitem2 (patches_orign second) (int v) (int u) = Inr ?b"
    "getitem2 (patches_orign first) (int y) (int x) = Inr ?c"
    "getitem2 (patches_repro second) (int v) (int u) = Inr ?d"
    and l: "length ?a = D" "length ?b = D" "length ?c = D" "length ?d = D"
    using assms by (simp_all add: bank_cell)
  from l obtain ab cd where
    "tensor_mul ?a ?b = Inr ab" "fsum ab = dot ?a ?b"
    "tensor_mul ?c ?d = Inr cd" "fsum cd = dot ?c ?d"
    using tensor_mul_dot [of ?a ?b] tensor_mul_dot [of ?c ?d] by auto
  with g show ?thesis by (simp add: patches_score_def)
qed

subsection \<open>More on loops\<close>

lemma ebind_assoc: "ebind (ebind m f) h = ebind m (\<lambda>x. ebind (f x) h)"
  by (cases m) simp_all

lemma ebind_cong: "(\<And>x. f x = h x) \<Longrightarrow> ebind m f = ebind m h"
  by (cases m) simp_all

lemma efold_append: "efold f (xs @ ys) s = ebind (efold f xs s) (efold f ys)"
  by (induction xs arbitrary: s) (auto simp: ebind_assoc intro: ebind_cong)

lemma efold_map: "efold f (map h xs) s = efold (\<lambda>x. f (h x)) xs s"
  by (induction xs arbitrary: s) (auto intro: ebind_cong)

lemma efold_product:
  "efold (\<lambda>y. efold (f y) xs) ys s = efold (\<lambda>(y, x). f y x) (List.product ys xs) s"
proof (induction ys arbitrary: s)
  case Nil
  then show ?case by simp
next
  case (Cons y ys)
  have "efold (\<lambda>(y, x). f y x) (map (Pair y) xs) s = efold (f y) xs s"
    by (simp add: efold_map)
  then show ?case
    using Cons.IH by (auto simp: efold_append intro: ebind_cong)
qed

lemma efold_establishes:
  assumes "efold f xs s = Inr s'" and "I s" and "z \<in> set xs"
    and inv: "\<And>x t t'. x \<in> set xs \<Longrightarrow> I t \<Longrightarrow> f x t = Inr t' \<Longrightarrow> I t'"
    and est: "\<And>t t'. I t \<Longrightarrow> f z t = Inr t' \<Longrightarrow> P t'"
    and pres: "\<And>x t t'. x \<in> set xs \<Longrightarrow> x \<noteq> z \<Longrightarrow> I t \<Longrightarrow> P t \<Longrightarrow> f x t = Inr t' \<Longrightarrow> P t'"
  shows "P s'"
  using assms(1-3) inv pres
proof (induction xs arbitrary: s)
  case Nil
  then show ?case by simp
next
  case (Cons x xs)
  from Cons.prems(1) obtain t where t: "f x s = Inr t" and rest: "efold f xs t = Inr s'"
    by (auto simp: ebind_eq_Inr)
  have It: "I t" using Cons.prems(2,4) t by auto
  have inv': "I u'" if "y \<in> set xs" "I u" "f y u = Inr u'" for y u u'
    using that Cons.prems(4) [of y u u'] by simp
  have pres': "P u'" if "y \<in> set xs" "y \<noteq> z" "I u" "P u" "f y u = Inr u'" for y u u'
    using that Cons.prems(5) [of y u u'] by simp
  show ?case
  proof (cases "z = x")
    case True
    with It t Cons.prems(2) have "I t \<and> P t" by (auto intro: est)
    have "I s' \<and> P s'"
    proof (rule efold_invariant [where I = "\<lambda>t. I t \<and> P t", OF rest \<open>I t \<and> P t\<close>])
      fix y u u'
      assume y: "y \<in> set xs" "I u \<and> P u" "f y u = Inr u'"
      then have "I u'" using inv' by blast
      moreover have "P u'"
      proof (cases "y = z")
        case True
        with y show ?thesis by (auto intro: est)
      next
        case False
        with y show ?thesis using pres' [of y u u'] by blast
      qed
      ultimately show "I u' \<and> P u'" by simp
    qed
    then show ?thesis by simp
  next
    case False
    with Cons.prems(3) have "z \<in> set xs" by simp
    with rest It show ?thesis
      using inv' pres' by (intro Cons.IH [of t]) blast+
  qed
qed

subsection \<open>The initialisation\<close>

lemma initialize_cell_result:
  assumes "field H W f" "y < H" "x < W"
    and "initialize_cell second pad (int y) (int x) f = Inr f'"
  shows "\<exists>s. patches_score f (int y) (int x) second
                (fst (indices f ! y ! x)) (snd (indices f ! y ! x)) pad = Inr s
            \<and> f' = f\<lparr>scores := (scores f)[y := (scores f ! y)[x := s]]\<rparr>"
proof -
  have r: "rect H W (indices f)" "rect H W (scores f)"
    using assms(1) by (simp_all add: field_def)
  show ?thesis
    using assms(2-4) r
    by (cases "indices f ! y ! x")
       (auto simp: initialize_cell_def getitem2_rect setitem2_rect ebind_eq_Inr)
qed

lemma initialize_cell_inv:
  assumes "init_inv H W first t" "y < H" "x < W"
    and "initialize_cell second pad (int y) (int x) t = Inr t'"
  shows "init_inv H W first t'"
proof -
  from assms have "field H W t" by (simp add: init_inv_def)
  from initialize_cell_result [OF this assms(2-4)] assms(1)
  show ?thesis by (auto simp: init_inv_def field_def rect_update)
qed

lemma initialize_cell_establishes:
  assumes "init_inv H W first t" "y < H" "x < W"
    and "initialize_cell second pad (int y) (int x) t = Inr t'"
  shows "consistent H W second t' y x"
proof -
  from assms have f: "field H W t" by (simp add: init_inv_def)
  then have r: "rect H W (scores t)" by (simp add: field_def)
  from initialize_cell_result [OF f assms(2-4)] obtain s where
    s: "patches_score t (int y) (int x) second
          (fst (indices t ! y ! x)) (snd (indices t ! y ! x)) pad = Inr s"
    and t': "t' = t\<lparr>scores := (scores t)[y := (scores t ! y)[x := s]]\<rparr>" by blast
  have "patches_score t' (int y) (int x) second a b 0
        = patches_score t (int y) (int x) second a b pad" for a b
    by (rule patches_score_frame) (simp_all add: t')
  with s t' r assms(2,3) show ?thesis
    by (simp add: consistent_def nth_update2)
qed

lemma initialize_cell_preserves:
  assumes "init_inv H W first t" "y < H" "x < W" "y' < H" "x' < W" "(y', x') \<noteq> (y, x)"
    and "consistent H W second t y x"
    and "initialize_cell second pad (int y') (int x') t = Inr t'"
  shows "consistent H W second t' y x"
proof -
  from assms have f: "field H W t" by (simp add: init_inv_def)
  then have r: "rect H W (scores t)" by (simp add: field_def)
  from initialize_cell_result [OF f assms(4,5,8)] obtain s where
    t': "t' = t\<lparr>scores := (scores t)[y' := (scores t ! y')[x' := s]]\<rparr>" by blast
  have "patches_score t' (int y) (int x) second a b 0
        = patches_score t (int y) (int x) second a b 0" for a b
    by (rule patches_score_frame) (simp_all add: t')
  with t' r assms(2,3,6,7) show ?thesis
    by (auto simp: consistent_def nth_update2)
qed

lemma initialize_inv:
  assumes f: "field H W first"
    and run: "patches_initialize first second pad = Inr f'"
  shows "init_inv H W first f'"
proof -
  have idx: "rect H W (indices first)" using f by (simp add: field_def)
  show ?thesis
  proof (rule efold2_invariant [where I = "init_inv H W first",
        OF run [unfolded patches_initialize_def]])
    show "init_inv H W first first" using f by (simp add: init_inv_def)
  next
    fix y x t t'
    assume "y \<in> set (py_range 0 (shape0 (indices first)) 1)"
      "x \<in> set (py_range 0 (shape1 (indices first)) 1)"
      "init_inv H W first t" "initialize_cell second pad y x t = Inr t'"
    then show "init_inv H W first t'"
      using loop_rows [OF idx] loop_cols [OF idx] initialize_cell_inv by blast
  qed
qed

lemma initialize_consistent:
  assumes f: "field H W first"
    and run: "patches_initialize first second pad = Inr f'"
    and cell: "y < H" "x < W"
  shows "consistent H W second f' y x"
proof -
  have idx: "rect H W (indices first)" using f by (simp add: field_def)
  let ?ys = "py_range 0 (shape0 (indices first)) 1"
  let ?xs = "py_range 0 (shape1 (indices first)) 1"
  have ys: "?ys = map int [0..<H]" using idx by (simp add: shape0_rect py_range_up)
  have xs: "?xs = map int [0..<W]" using idx cell by (simp add: shape1_rect py_range_up)
  have run': "efold (\<lambda>(y, x). initialize_cell second pad y x) (List.product ?ys ?xs) first
              = Inr f'"
    using run by (simp add: patches_initialize_def efold_product)
  have mem: "(int y, int x) \<in> set (List.product ?ys ?xs)"
    using cell by (simp add: ys xs)
  have nat: "\<exists>y' x'. c = (int y', int x') \<and> y' < H \<and> x' < W"
    if "c \<in> set (List.product ?ys ?xs)" for c
    using that by (auto simp: ys xs)
  show ?thesis
  proof (rule efold_establishes [where I = "init_inv H W first"
        and P = "\<lambda>t. consistent H W second t y x", OF run' _ mem])
    show "init_inv H W first first" using f by (simp add: init_inv_def)
  next
    fix c t t'
    assume "c \<in> set (List.product ?ys ?xs)" "init_inv H W first t"
      "(case c of (y, x) \<Rightarrow> initialize_cell second pad y x) t = Inr t'"
    then show "init_inv H W first t'"
      using nat [of c] initialize_cell_inv by auto
  next
    fix t t'
    assume "init_inv H W first t"
      "(case (int y, int x) of (y, x) \<Rightarrow> initialize_cell second pad y x) t = Inr t'"
    then show "consistent H W second t' y x"
      using initialize_cell_establishes cell by auto
  next
    fix c t t'
    assume "c \<in> set (List.product ?ys ?xs)" "c \<noteq> (int y, int x)" "init_inv H W first t"
      "consistent H W second t y x"
      "(case c of (y, x) \<Rightarrow> initialize_cell second pad y x) t = Inr t'"
    moreover from this obtain y' x' where c: "c = (int y', int x')" "y' < H" "x' < W"
      using nat [of c] by blast
    ultimately show "consistent H W second t' y x"
      using initialize_cell_preserves [OF _ cell, of first t y' x' second pad t'] by auto
  qed
qed

subsection \<open>The sweeps raise no exception on well-shaped levels\<close>

lemma accept_result:
  assumes "field H W f" "y < H" "x < W"
  shows "accept f (int y) (int x) v u s =
           Inr (if fgt s (scores f ! y ! x)
                then f\<lparr>scores := (scores f)[y := (scores f ! y)[x := s]],
                       indices := (indices f)[y := (indices f ! y)[x := (v, u)]]\<rparr>
                else f)"
proof -
  have "rect H W (indices f)" "rect H W (scores f)"
    using assms(1) by (simp_all add: field_def)
  then show ?thesis
    using assms(2,3) by (simp add: accept_def getitem2_rect setitem2_rect)
qed

lemma accept_level_inv:
  assumes "level_inv H W first t" "y < H" "x < W"
  shows "\<exists>t'. accept t (int y) (int x) v u s = Inr t' \<and> level_inv H W first t'"
proof -
  from assms(1) have "field H W t" by (simp add: level_inv_def)
  from accept_result [OF this assms(2,3)] assms(1) show ?thesis
    by (auto simp: level_inv_def field_def rect_update)
qed

lemma int_nat_bound: "0 \<le> v \<Longrightarrow> v < int H \<Longrightarrow> \<exists>k<H. v = int k"
  by (metis nat_less_iff nonneg_int_cases nat_int)

lemma score_total:
  assumes inv: "level_inv H W first t"
    and banks: "bank H W D (patches_orign first)" "bank H W D (patches_repro first)"
      "bank H2 W2 D (patches_orign second)" "bank H2 W2 D (patches_repro second)"
    and le: "H \<le> H2" "W \<le> W2"
    and cell: "y < H" "x < W" and cand: "0 \<le> v" "v < int H" "0 \<le> u" "u < int W"
  shows "\<exists>s. patches_score t (int y) (int x) second v u pad = Inr s"
proof -
  from cand obtain v' u' where vu: "v = int v'" "u = int u'" "v' < H" "u' < W"
    using int_nat_bound by blast
  have "bank H W D (patches_repro t)" "bank H W D (patches_orign t)"
    using inv banks by (simp_all add: level_inv_def)
  from patches_score_eq [OF this banks(3,4) cell, of v' u' pad] vu le
  show ?thesis by simp
qed

lemma propagate_offset_total:
  assumes inv: "level_inv H W first t"
    and banks: "bank H W D (patches_orign first)" "bank H W D (patches_repro first)"
      "bank H2 W2 D (patches_orign second)" "bank H2 W2 D (patches_repro second)"
    and le: "H \<le> H2" "W \<le> W2"
    and cell: "y < H" "x < W"
  shows "\<exists>t'. propagate_offset second pad (int y) (int x) off t = Inr t'
           \<and> level_inv H W first t'"
proof -
  have idx: "rect H W (indices t)" using inv by (simp add: level_inv_def field_def)
  from propagate_candidate_ok [OF idx cell, of off] obtain v u where
    c: "propagate_candidate (indices t) (int y) (int x) off = Inr (v, u)"
    and b: "0 \<le> v" "v < int H" "0 \<le> u" "u < int W" by blast
  from score_total [OF inv banks le cell b] obtain s where
    s: "patches_score t (int y) (int x) second v u pad = Inr s" by blast
  from accept_level_inv [OF inv cell, of v u s] c s show ?thesis
    by (simp add: propagate_offset_def)
qed

lemma search_try_total:
  assumes inv: "level_inv H W first t"
    and banks: "bank H W D (patches_orign first)" "bank H W D (patches_repro first)"
      "bank H2 W2 D (patches_orign second)" "bank H2 W2 D (patches_repro second)"
    and le: "H \<le> H2" "W \<le> W2"
    and cell: "y < H" "x < W"
  shows "\<exists>t' k'. search_try g second rad pad (int y) (int x) (t, k) = Inr (t', k')
           \<and> level_inv H W first t'"
proof -
  have idx: "rect H W (indices t)" using inv by (simp add: level_inv_def field_def)
  from search_candidate_ok [OF idx cell, of g rad k] obtain v u where
    c: "search_candidate g (indices t) rad (int y) (int x) k = Inr ((v, u), k + 2)"
    and b: "0 \<le> v" "v < int H" "0 \<le> u" "u < int W" by blast
  from score_total [OF inv banks le cell b] obtain s where
    s: "patches_score t (int y) (int x) second v u pad = Inr s" by blast
  from accept_level_inv [OF inv cell, of v u s] c s show ?thesis
    by (auto simp add: search_try_def)
qed

lemma propagate_total:
  assumes f: "field H W first"
    and banks: "bank H W D (patches_orign first)" "bank H W D (patches_repro first)"
      "bank H2 W2 D (patches_orign second)" "bank H2 W2 D (patches_repro second)"
    and le: "H \<le> H2" "W \<le> W2"
  shows "\<exists>first'. patches_propagate first second i pad = Inr first'
           \<and> level_inv H W first first'"
proof -
  have idx: "rect H W (indices first)" using f by (simp add: field_def)
  have "level_inv H W first first" using f by (simp add: level_inv_def)
  then show ?thesis
    unfolding patches_propagate_def Let_def
  proof (rule efold3_total [where I = "level_inv H W first"])
    fix y x z t
    assume "y \<in> set (scan_range (i mod 2 = 0) (shape0 (indices first)))"
      "x \<in> set (scan_range (i mod 2 = 0) (shape1 (indices first)))"
      "level_inv H W first t"
    then show "\<exists>t'. propagate_offset second pad y x z t = Inr t' \<and> level_inv H W first t'"
      using scan_rows [OF idx] scan_cols [OF idx] propagate_offset_total [OF _ banks le]
      by blast
  qed
qed

lemma search_total:
  assumes f: "field H W first"
    and banks: "bank H W D (patches_orign first)" "bank H W D (patches_repro first)"
      "bank H2 W2 D (patches_orign second)" "bank H2 W2 D (patches_repro second)"
    and le: "H \<le> H2" "W \<le> W2"
  shows "\<exists>first' k'. patches_search g first second n_times rad pad k = Inr (first', k')
           \<and> level_inv H W first first'"
proof -
  have idx: "rect H W (indices first)" using f by (simp add: field_def)
  have "level_inv H W first (fst (first, k))" using f by (simp add: level_inv_def)
  then have "\<exists>s'. patches_search g first second n_times rad pad k = Inr s'
           \<and> level_inv H W first (fst s')"
    unfolding patches_search_def
  proof (rule efold3_total [where I = "\<lambda>s. level_inv H W first (fst s)"])
    fix y x z and t :: "buffer \<times> nat"
    assume a: "y \<in> set (py_range 0 (shape0 (indices first)) 1)"
      "x \<in> set (py_range 0 (shape1 (indices first)) 1)"
      "level_inv H W first (fst t)"
    then obtain y' x' where yx: "y = int y'" "x = int x'" "y' < H" "x' < W"
      using loop_rows [OF idx] loop_cols [OF idx] by blast
    from search_try_total [OF a(3) banks le yx(3,4), of g rad pad "snd t"]
    show "\<exists>t'. search_try g second rad pad y x t = Inr t' \<and> level_inv H W first (fst t')"
      using yx by auto
  qed
  then show ?thesis by auto
qed

subsection \<open>32-bit wrap-around\<close>

lemma int32_id: "- (2 ^ 31) \<le> n \<Longrightarrow> n < 2 ^ 31 \<Longrightarrow> int32 n = n"
  by (simp add: int32_def)

subsection \<open>A returned subscript was in range\<close>








subsection \<open>The upsampling of merge\_flow\<close>

lemma zoom_coord_half:
  assumes "out < 2 * n"
  shows "zoom_coord n out = out div 2"
proof -
  from assms obtain m where n: "n = Suc m" by (cases n) auto
  obtain k r where o: "out = 2 * k + r" "r < 2"
    by (metis mod_less_divisor mult_div_mod_eq pos2)
  then have r: "r = 0 \<or> r = 1" by auto
  from o assms n have k: "k \<le> m" by simp
  have "(2 * out * m + (2 * m + 1)) div (2 * (2 * m + 1)) = k"
  proof (rule div_nat_eqI)
    show "2 * (2 * m + 1) * k \<le> 2 * out * m + (2 * m + 1)"
      using o k r by (auto simp: algebra_simps)
    show "2 * out * m + (2 * m + 1) < 2 * (2 * m + 1) * Suc k"
      using o k r by (auto simp: algebra_simps)
  qed
  moreover have "out div 2 = k" using o by simp
  ultimately show ?thesis by (simp add: zoom_coord_def n)
qed

lemma length_zoom_axis [simp]: "length (zoom_axis xs) = 2 * length xs"
  by (simp add: zoom_axis_def)

lemma nth_zoom_axis: "out < 2 * length xs \<Longrightarrow> zoom_axis xs ! out = xs ! (out div 2)"
  by (simp add: zoom_axis_def zoom_coord_half)


lemma nth_zoom:
  "rect H W a \<Longrightarrow> y < 2 * H \<Longrightarrow> x < 2 * W \<Longrightarrow> zoom a ! y ! x = a ! (y div 2) ! (x div 2)"
  by (auto simp: rect_def zoom_def list_all_length nth_zoom_axis)

lemma merge_flow_indices:
  assumes "merge_flow rnd this (Some par) other = Inr this'"
  shows "indices this' =
           zoom (map (map (\<lambda>(v, u). (int32 (v * 2), int32 (u * 2)))) (indices par))"
  using assms
  by (auto simp: merge_flow_def Let_def ebind_eq_Inr split: if_splits)

lemma rect_map_map: "rect H W a \<Longrightarrow> rect H W (map (map f) a)"
  by (auto simp: rect_def list_all_length)

lemma merge_flow_cell:
  assumes "merge_flow rnd this (Some par) other = Inr this'"
    and "rect Hp Wp (indices par)" "y < 2 * Hp" "x < 2 * Wp"
  shows "indices this' ! y ! x =
           (int32 (fst (indices par ! (y div 2) ! (x div 2)) * 2),
            int32 (snd (indices par ! (y div 2) ! (x div 2)) * 2))"
proof -
  have "y div 2 < Hp" "x div 2 < Wp" using assms(3,4) by auto
  then show ?thesis
    using assms(2)
    by (simp add: merge_flow_indices [OF assms(1)]
        nth_zoom [OF rect_map_map [OF assms(2)] assms(3,4)]
        rect_length rect_row case_prod_beta)
qed



subsection \<open>Dividing by a norm of zero\<close>

lemma fround_not_finite: "\<not> is_finite a \<Longrightarrow> fround rnd a = a"
  by (cases a) (simp_all add: fround_def)

lemma fdiv_zero:
  "fdiv a (Fin 0) =
     (case a of Fin r \<Rightarrow> if r = 0 then NaN else signed_inf (0 < r)
      | PInf \<Rightarrow> PInf | NInf \<Rightarrow> NInf | NaN \<Rightarrow> NaN)"
  by (cases a) (simp_all add: signed_inf_def)

lemma fdiv_zero_not_finite: "\<not> is_finite (fdiv a (Fin 0))"
  by (cases a) (simp_all add: signed_inf_def)

lemma rsum_zeros: "rnd 0 = Fin 0 \<Longrightarrow> rsum rnd (replicate n (Fin 0)) = Fin 0"
  by (induction n) (simp_all add: rsum_def fround_def)

lemma norm_zero_vector:
  "rnd 0 = Fin 0 \<Longrightarrow> patches_norm rnd (replicate n (Fin 0)) = Fin 0"
  by (simp add: patches_norm_def fround_def rsum_zeros)

lemma normalize_cell:
  assumes "y < length patches" "x < length (patches ! y)" "c < length (patches ! y ! x)"
  shows "normalize_patches rnd patches ! y ! x ! c =
           fround rnd (fdiv (patches ! y ! x ! c) (patches_norm rnd (patches ! y ! x)))"
  using assms by (simp add: normalize_patches_def)

lemma normalize_zero_norm:
  assumes "y < length patches" "x < length (patches ! y)" "c < length (patches ! y ! x)"
    and "patches_norm rnd (patches ! y ! x) = Fin 0"
  shows "normalize_patches rnd patches ! y ! x ! c = fdiv (patches ! y ! x ! c) (Fin 0)"
  by (simp add: normalize_cell [OF assms(1-3)] assms(4) fround_not_finite
      fdiv_zero_not_finite)

lemma merge_flow_normalizes:
  "merge_flow rnd this (Some par) other = Inr this'
     \<Longrightarrow> \<exists>p. patches_repro this' = normalize_patches rnd p"
  by (auto simp: merge_flow_def Let_def ebind_eq_Inr split: if_splits)

subsection \<open>Every pair of the upsampled field is looked up in the opposing features\<close>





subsection \<open>The scan of the propagation sweep\<close>

lemma propagate_unfold:
  assumes "rect H W (indices first)"
  shows "patches_propagate first second i pad =
           efold (\<lambda>y. efold (\<lambda>x. efold (propagate_offset second pad y x)
                    (if i mod 2 = 0 then [(0, - 1), (- 1, 0)] else [(0, 1), (1, 0)]))
                  (if i mod 2 = 0 then map int [0..<W] else rev (map int [0..<W])))
                (if i mod 2 = 0 then map int [0..<H] else rev (map int [0..<H])) first"
proof (cases "0 < H")
  case True
  with assms show ?thesis
    by (simp add: patches_propagate_def shape0_rect shape1_rect scan_range_eq
        propagate_offsets_def)
next
  case False
  with assms show ?thesis
    by (simp add: patches_propagate_def shape0_rect scan_range_eq [of _ 0, simplified])
qed

lemma propagate_candidate_eq:
  assumes "rect H W idx" "ny < H" "nx < W"
    and "propagate_neighbor idx y x off = (int ny, int nx)"
  shows "propagate_candidate idx y x off =
           Inr (clamp H (int32 (fst (idx ! ny ! nx) - fst off)),
                clamp W (int32 (snd (idx ! ny ! nx) - snd off)))"
  using assms
  by (cases "idx ! ny ! nx")
     (simp add: propagate_candidate_def getitem2_rect shape0_rect shape1_rect Let_def
        clamp_def)

lemma propagate_neighbor_clamp:
  assumes "rect H W idx" "y < H" "x < W"
  shows "propagate_neighbor idx (int y) (int x) off =
           (int (nat (clamp H (int y + fst off))), int (nat (clamp W (int x + snd off))))
         \<and> nat (clamp H (int y + fst off)) < H \<and> nat (clamp W (int x + snd off)) < W"
  using assms by (auto simp: propagate_neighbor_def shape0_rect shape1_rect clamp_def)

lemma clamp_inside: "0 \<le> v \<Longrightarrow> v < int n \<Longrightarrow> int (nat (clamp n v)) = v"
  by (simp add: clamp_def)

lemma clamp_range: "0 < n \<Longrightarrow> 0 \<le> clamp n v \<and> clamp n v < int n"
  by (auto simp: clamp_def)

lemma propagate_candidate_clamped:
  assumes r: "rect H W idx" and b: "in_bounds H W idx"
    and small: "H < 2 ^ 31" "W < 2 ^ 31" and cell: "y < H" "x < W"
    and off: "\<bar>fst off\<bar> \<le> 1" "\<bar>snd off\<bar> \<le> 1"
  shows "propagate_candidate idx (int y) (int x) off =
           Inr (clamp H (fst (idx ! nat (clamp H (int y + fst off))
                                  ! nat (clamp W (int x + snd off))) - fst off),
                clamp W (snd (idx ! nat (clamp H (int y + fst off))
                                  ! nat (clamp W (int x + snd off))) - snd off))"
proof -
  let ?ny = "nat (clamp H (int y + fst off))" and ?nx = "nat (clamp W (int x + snd off))"
  from propagate_neighbor_clamp [OF r cell, of off]
  have n: "propagate_neighbor idx (int y) (int x) off = (int ?ny, int ?nx)"
    "?ny < H" "?nx < W" by simp_all
  then have l: "?ny < length idx" "?nx < length (idx ! ?ny)"
    using r by (simp_all add: rect_length rect_row)
  from in_bounds_cell [OF b l]
  have p: "0 \<le> fst (idx ! ?ny ! ?nx)" "fst (idx ! ?ny ! ?nx) < int H"
    "0 \<le> snd (idx ! ?ny ! ?nx)" "snd (idx ! ?ny ! ?nx) < int W" by simp_all
  have "int H < int (2 ^ 31)" "int W < int (2 ^ 31)"
    using small by (simp_all only: of_nat_less_iff)
  then have q: "int H < 2147483648" "int W < 2147483648" by simp_all
  have "int32 (fst (idx ! ?ny ! ?nx) - fst off) = fst (idx ! ?ny ! ?nx) - fst off"
    using p(1,2) q(1) off(1) by (intro int32_id) simp_all
  moreover have "int32 (snd (idx ! ?ny ! ?nx) - snd off) = snd (idx ! ?ny ! ?nx) - snd off"
    using p(3,4) q(2) off(2) by (intro int32_id) simp_all
  ultimately show ?thesis
    by (simp add: propagate_candidate_eq [OF r n(2,3,1)])
qed

lemma propagate_offset_eq:
  assumes "field H W t" "y < H" "x < W"
    and "propagate_candidate (indices t) (int y) (int x) off = Inr (v, u)"
    and "patches_score t (int y) (int x) second v u pad = Inr s"
  shows "propagate_offset second pad (int y) (int x) off t =
           Inr (if fgt s (scores t ! y ! x)
                then t\<lparr>scores := (scores t)[y := (scores t ! y)[x := s]],
                       indices := (indices t)[y := (indices t ! y)[x := (v, u)]]\<rparr>
                else t)"
  using assms(4,5) by (simp add: propagate_offset_def accept_result [OF assms(1-3)])

lemma offsets_small:
  "off \<in> set (if i mod 2 = 0 then [(0, - 1), (- 1, 0)] else [(0, 1), (1::int, 0::int)])
     \<Longrightarrow> \<bar>fst off\<bar> \<le> 1 \<and> \<bar>snd off\<bar> \<le> 1"
  by (auto split: if_splits)

subsection \<open>The identity field and the demo levels\<close>

lemma rect_identity: "rect H W (identity_indices H W)"
  by (simp add: rect_def identity_indices_def list_all_length)

lemma in_bounds_identity: "in_bounds H W (identity_indices H W)"
  by (simp add: in_bounds_def identity_indices_def list_all_length)

lemma demo_field: "field 2 2 demo_first"
  by (simp add: field_def rect_identity demo_first_def) (simp add: rect_def)

lemma demo_banks:
  "bank 2 2 2 (patches_orign demo_first)" "bank 2 2 2 (patches_repro demo_first)"
  "bank 2 2 2 (patches_orign demo_second)" "bank 2 2 2 (patches_repro demo_second)"
  by (simp_all add: bank_def rect_def demo_first_def demo_second_def demo_bank_def)

lemma demo_initialize: "patches_initialize demo_first demo_second 1 = Inr demo_init"
  by code_simp

lemma demo_run_fresh: "run_calls demo_gen demo_second demo_calls (demo_first, 0) = Inr (demo_swept, 16)"
  by code_simp

lemma demo_run_init: "run_calls demo_gen demo_second demo_calls (demo_init, 0) = Inr (demo_refined, 16)"
  by code_simp

lemma demo_merge: "merge_flow Fin demo_child (Some demo_parent) demo_child = Inr demo_merged"
proof -
  let ?Z = "[[(0, 0), (0, 0), (0, 2), (0, 2)], [(0, 0), (0, 0), (0, 2), (0, 2)]] :: (int \<times> int) list list"
  let ?Wp = "[[[Fin 1], [Fin 1], [Fin 3], [Fin 3]], [[Fin 1], [Fin 1], [Fin 3], [Fin 3]]]"
  have z: "zoom (map (map (\<lambda>(v, u). (int32 (v * 2), int32 (u * 2)))) (indices demo_parent))
           = ?Z"
    by code_simp
  have s: "shape0 (indices demo_child) = 2" "shape1 (indices demo_child) = 4"
    "shape0 ?Z = 2" "shape1 ?Z = 4"
    by code_simp+
  have w: "warp_features ?Z (features_orign demo_child) (features_orign demo_child) = Inr ?Wp"
    by code_simp
  have e: "extract_patches
             (blend_features (features_orign demo_child) (weights demo_child) ?Wp)
             (padding demo_child)
           = Inr [[[Fin 1], [Fin (3/2)], [Fin 3], [Fin (7/2)]],
                  [[Fin 3], [Fin (7/2)], [Fin 5], [Fin (11/2)]]]"
    by code_simp
  show ?thesis
    by (simp add: merge_flow_def z s w e demo_merged_def del: One_nat_def)
qed

lemma wide_level_eq:
  "wide_level =
     \<lparr>features_orign = [[[Fin 1], [Fin 1]]],
      patches_orign = [[[Fin 1], [Fin 1]]], patches_repro = [[[Fin 1], [Fin 1]]],
      weights = [[Fin 1, Fin 1]], weight = Fin 1, radius = - 1, padding = 1,
      indices = [[(0, 0), (0, 1)]], scores = [[Fin 0, Fin 0]]\<rparr>"
  by (simp add: wide_level_def Buffer_init_def normalize_patches_def patches_norm_def rsum_def fround_def
      identity_indices_def shape0_def shape1_def upt_rec numeral_nat)

lemma small_level_eq:
  "small_level =
     \<lparr>features_orign = [[[Fin 1]]],
      patches_orign = [[[Fin (- 1)]]], patches_repro = [[[Fin (- 1)]]],
      weights = [[Fin 1]], weight = Fin 1, radius = - 1, padding = 1,
      indices = [[(0, 0)]], scores = [[Fin 0]]\<rparr>"
  by (simp add: small_level_def Buffer_init_def normalize_patches_def patches_norm_def rsum_def fround_def
      identity_indices_def shape0_def shape1_def)


lemma demo_propagate: "patches_propagate demo_first demo_second 0 1 = Inr demo_propagated"
  by code_simp



lemma demo_in_bounds: "in_bounds 2 2 (indices demo_first)"
  by (simp add: demo_first_def in_bounds_identity)









lemma tiny_norm: "patches_norm range32 [Fin (1 / 2 ^ 100), Fin 0] = Fin 0"
  by (simp add: patches_norm_def rsum_def fround_def range32_def)

lemma demo_step_score: "patches_score demo_first 0 1 demo_second 1 1 1 = Inr (Fin (9/10))"
  by code_simp

lemma chain_propagate: "patches_propagate chain_level chain_level 0 1 = Inr chain_swept"
  by code_simp

subsection \<open>The score\<close>

text \<open>
  Claim C1. For two levels whose patch banks hold descriptors of one length, and cells
  \<open>(y, x)\<close> of the first and \<open>(v, u)\<close> of the second, the score is
  \<open>0.5 * (dot(first.repro[y, x], second.orign[v, u]) + dot(first.orign[y, x],
  second.repro[v, u]))\<close>, the dot product being the sum of the componentwise products.
\<close>

theorem patches_score_formula:
  assumes "bank H W D (patches_repro first)" "bank H W D (patches_orign first)"
    and "bank H2 W2 D (patches_orign second)" "bank H2 W2 D (patches_repro second)"
    and "y < H" "x < W" "v < H2" "u < W2"
  shows "patches_score first (int y) (int x) second (int v) (int u) pad =
           Inr (fmul (Fin 0.5)
             (fadd (dot (patches_repro first ! y ! x) (patches_orign second ! v ! u))
                   (dot (patches_orign first ! y ! x) (patches_repro second ! v ! u))))"
  using assms by (rule patches_score_eq)

theorem patches_score_formula_witness:
  "bank 2 2 2 (patches_repro demo_first) \<and> bank 2 2 2 (patches_orign demo_first)
   \<and> bank 2 2 2 (patches_orign demo_second) \<and> bank 2 2 2 (patches_repro demo_second)
   \<and> patches_score demo_first 1 0 demo_second 0 0 1 = Inr (Fin (9/10))"
proof -
  have "patches_score demo_first (int 1) (int 0) demo_second (int 0) (int 0) 1 =
          Inr (fmul (Fin 0.5)
             (fadd (dot (patches_repro demo_first ! 1 ! 0) (patches_orign demo_second ! 0 ! 0))
                   (dot (patches_orign demo_first ! 1 ! 0) (patches_repro demo_second ! 0 ! 0))))"
    by (rule patches_score_formula [OF demo_banks(2,1,3,4)]) simp_all
  moreover have "fmul (Fin 0.5)
             (fadd (dot (patches_repro demo_first ! 1 ! 0) (patches_orign demo_second ! 0 ! 0))
                   (dot (patches_orign demo_first ! 1 ! 0) (patches_repro demo_second ! 0 ! 0)))
            = Fin (9/10)"
    by (simp add: demo_first_def demo_second_def demo_bank_def dot_def fsum_def upt_rec numeral_nat)
  ultimately show ?thesis using demo_banks by simp
qed

subsection \<open>Scores under propagation and random search\<close>

text \<open>
  Claim C6. Over any finite sequence of propagate and random-search calls on a field,
  the stored score of a cell never decreases: after the calls it is the score before
  them or strictly greater. A single call is the sequence of length one.
\<close>

theorem scores_never_decrease:
  assumes "field H W first"
    and "run_calls g second calls (first, k) = Inr (first', k')"
    and "y < H" "x < W"
  shows "fge (scores first' ! y ! x) (scores first ! y ! x)"
  using greedy_mono [OF run_calls_greedy [OF assms(1,2)] assms(1,3,4)] .

theorem scores_never_decrease_witness:
  "field 2 2 demo_first
   \<and> run_calls demo_gen demo_second demo_calls (demo_first, 0) = Inr (demo_swept, 16)
   \<and> scores demo_first ! 0 ! 1 = Fin 0 \<and> scores demo_swept ! 0 ! 1 = Fin (9/10)
   \<and> fge (scores demo_swept ! 0 ! 1) (scores demo_first ! 0 ! 1)"
proof -
  have "fge (scores demo_swept ! 0 ! 1) (scores demo_first ! 0 ! 1)"
    by (rule scores_never_decrease [OF demo_field demo_run_fresh]) simp_all
  then show ?thesis
    using demo_field demo_run_fresh by (simp add: demo_first_def demo_swept_def)
qed

text \<open>
  Claim C7. After the initialisation and any sequence of propagate and random-search
  calls that follows it on the same patch banks, the stored score of every cell is the
  score of the index pair stored in that cell.
\<close>

theorem stored_score_is_score_of_stored_index:
  assumes "field H W first"
    and "patches_initialize first second pad = Inr f0"
    and "run_calls g second calls (f0, k) = Inr (f', k')"
    and "y < H" "x < W"
  shows "patches_score f' (int y) (int x) second
           (fst (indices f' ! y ! x)) (snd (indices f' ! y ! x)) pad' = Inr (scores f' ! y ! x)"
proof -
  have f0: "field H W f0"
    using initialize_inv [OF assms(1,2)] by (simp add: init_inv_def)
  have "consistent H W second f0 y x"
    by (rule initialize_consistent [OF assms(1,2,4,5)])
  with run_calls_greedy [OF f0 assms(3)] f0 assms(4,5)
  have "consistent H W second f' y x" by (rule greedy_consistent)
  then show ?thesis
    by (simp add: consistent_def patches_score_frame [of f' f' _ _ _ _ _ pad' 0])
qed

theorem stored_score_is_score_of_stored_index_witness:
  "field 2 2 demo_first
   \<and> patches_initialize demo_first demo_second 1 = Inr demo_init
   \<and> run_calls demo_gen demo_second demo_calls (demo_init, 0) = Inr (demo_refined, 16)
   \<and> indices demo_refined ! 1 ! 1 = (1, 0) \<and> scores demo_refined ! 1 ! 1 = Fin 0
   \<and> patches_score demo_refined 1 1 demo_second 1 0 1 = Inr (Fin 0)"
proof -
  have "patches_score demo_refined (int 1) (int 1) demo_second
           (fst (indices demo_refined ! 1 ! 1)) (snd (indices demo_refined ! 1 ! 1)) 1
         = Inr (scores demo_refined ! 1 ! 1)"
    by (rule stored_score_is_score_of_stored_index
          [OF demo_field demo_initialize demo_run_init]) simp_all
  then show ?thesis
    using demo_field demo_initialize demo_run_init by (simp add: demo_refined_def)
qed

subsection \<open>The repeat count of the random search\<close>

text \<open>
  Claim C2, as the code has it. An odd pass \<open>i\<close> of the refinement loop calls the random
  search with the level's radius and with \<open>radius // 2\<close> repeats when the radius is
  positive, 6 repeats (\<open>12 // 2\<close>) otherwise. This is \<open>max(radius, 12) / 2\<close> only for a
  radius that is at least 12 or not positive.
\<close>

theorem search_times_radius:
  "i mod 2 = 1 \<Longrightarrow>
   flow_iteration g second i (first, k) =
     patches_search g first second
       (if radius first > 0 then radius first div 2 else 6) (radius first) (padding first) k"
  by (simp add: flow_iteration_def search_times_def)

theorem search_times_radius_witness:
  "(1::int) mod 2 = 1 \<and>
   flow_iteration (\<lambda>_. 0) demo_second 1 (demo_first, 0) =
     patches_search (\<lambda>_. 0) demo_first demo_second 2 4 1 0"
  using search_times_radius [of 1 "\<lambda>_. 0" demo_second demo_first 0]
  by (simp add: demo_first_def)

text \<open>
  With the radius 4 of the demo level the search of pass 1 runs twice, where
  \<open>max(radius, 12) / 2\<close> is 6.
\<close>

theorem search_times_not_max:
  "flow_iteration (\<lambda>_. 0) demo_second 1 (demo_first, 0) =
     patches_search (\<lambda>_. 0) demo_first demo_second 2 4 1 0
   \<and> max (radius demo_first) 12 div 2 = 6"
  by (simp add: flow_iteration_def search_times_def demo_first_def)

subsection \<open>The padding argument\<close>

lemma initialize_cell_pad: "initialize_cell second p1 = initialize_cell second p2"
  by (simp add: fun_eq_iff initialize_cell_def patches_score_def)

lemma propagate_offset_pad: "propagate_offset second p1 = propagate_offset second p2"
  by (simp add: fun_eq_iff propagate_offset_def patches_score_def)

lemma search_try_pad: "search_try g second rad p1 = search_try g second rad p2"
  by (simp add: fun_eq_iff search_try_def patches_score_def)

text \<open>
  Claim C10. The score, the initialisation, the propagation sweep and the random search
  return the same result, stored indices and stored scores included, for any two values
  of the padding argument.
\<close>

theorem padding_unused:
  "patches_score first y x second v u p1 = patches_score first y x second v u p2
   \<and> patches_initialize first second p1 = patches_initialize first second p2
   \<and> patches_propagate first second i p1 = patches_propagate first second i p2
   \<and> patches_search g first second n_times rad p1 k
       = patches_search g first second n_times rad p2 k"
  by (simp add: patches_score_def patches_initialize_def patches_propagate_def
      patches_search_def initialize_cell_pad [of second p1 p2]
      propagate_offset_pad [of second p1 p2] search_try_pad [of g second rad p1 p2])

subsection \<open>Normalising a descriptor of norm zero\<close>

text \<open>
  Claim C5, as the code has it. A descriptor whose computed norm is exactly zero (the
  zero vector, or a descriptor whose squares all underflow) is divided by that zero
  like any other: each stored component is the component divided by zero, NaN for a
  zero component and the infinity of its sign for any other, so no stored component is
  zero or any other finite number. The zero vector has computed norm zero under every
  rounding that keeps zero, and is stored as NaNs. The division raises nothing; the
  constructor and the merge step both store what \<open>normalize_patches\<close> returns.
\<close>

theorem zero_norm_stored_not_finite:
  assumes "y < length patches" "x < length (patches ! y)" "c < length (patches ! y ! x)"
    and "patches_norm rnd (patches ! y ! x) = Fin 0"
  shows "normalize_patches rnd patches ! y ! x ! c = fdiv (patches ! y ! x ! c) (Fin 0)
       \<and> \<not> is_finite (normalize_patches rnd patches ! y ! x ! c)
       \<and> (\<forall>a. patches ! y ! x ! c = Fin a \<longrightarrow>
             normalize_patches rnd patches ! y ! x ! c
               = (if a = 0 then NaN else signed_inf (0 < a)))
       \<and> patches_orign (Buffer_init rnd features patches wts wt rad pad) ! y ! x ! c
           = fdiv (patches ! y ! x ! c) (Fin 0)
       \<and> patches_repro (Buffer_init rnd features patches wts wt rad pad) ! y ! x ! c
           = fdiv (patches ! y ! x ! c) (Fin 0)
       \<and> (rnd 0 = Fin 0 \<longrightarrow> patches_norm rnd (replicate n (Fin 0)) = Fin 0)
       \<and> (\<forall>this'. merge_flow rnd this (Some par) other = Inr this'
             \<longrightarrow> (\<exists>p. patches_repro this' = normalize_patches rnd p))"
proof -
  have n: "normalize_patches rnd patches ! y ! x ! c = fdiv (patches ! y ! x ! c) (Fin 0)"
    by (rule normalize_zero_norm [OF assms])
  have f: "\<not> is_finite (normalize_patches rnd patches ! y ! x ! c)"
    by (simp add: n fdiv_zero_not_finite)
  have v: "\<forall>a. patches ! y ! x ! c = Fin a \<longrightarrow>
             normalize_patches rnd patches ! y ! x ! c
               = (if a = 0 then NaN else signed_inf (0 < a))"
    by (simp add: n fdiv_zero)
  have b: "patches_orign (Buffer_init rnd features patches wts wt rad pad) ! y ! x ! c
             = fdiv (patches ! y ! x ! c) (Fin 0)"
    "patches_repro (Buffer_init rnd features patches wts wt rad pad) ! y ! x ! c
             = fdiv (patches ! y ! x ! c) (Fin 0)"
    using n by (simp_all add: Buffer_init_def)
  have z: "rnd 0 = Fin 0 \<longrightarrow> patches_norm rnd (replicate n (Fin 0)) = Fin 0"
    by (simp add: norm_zero_vector)
  have m: "\<forall>this'. merge_flow rnd this (Some par) other = Inr this'
             \<longrightarrow> (\<exists>p. patches_repro this' = normalize_patches rnd p)"
    by (simp add: merge_flow_normalizes)
  from n f v b z m show ?thesis by blast
qed

theorem zero_norm_stored_not_finite_witness:
  "patches_norm range32 ([[[Fin (1 / 2 ^ 100), Fin 0]]] ! 0 ! 0) = Fin 0
   \<and> normalize_patches range32 [[[Fin (1 / 2 ^ 100), Fin 0]]] ! 0 ! 0 ! 0 = PInf
   \<and> normalize_patches range32 [[[Fin (1 / 2 ^ 100), Fin 0]]] ! 0 ! 0 ! 1 = NaN
   \<and> range32 0 = Fin 0 \<and> patches_norm range32 (replicate 2 (Fin 0)) = Fin 0
   \<and> merge_flow Fin demo_child (Some demo_parent) demo_child = Inr demo_merged
   \<and> patches_repro demo_merged = normalize_patches Fin
        [[[Fin 1], [Fin (3/2)], [Fin 3], [Fin (7/2)]],
         [[Fin 3], [Fin (7/2)], [Fin 5], [Fin (11/2)]]]"
proof -
  let ?p = "[[[Fin (1 / 2 ^ 100), Fin 0]]]"
  have n: "patches_norm range32 (?p ! 0 ! 0) = Fin 0" using tiny_norm by simp
  have r0: "range32 0 = Fin 0" by (simp add: range32_def)
  have l: "(0::nat) < length ?p" "0 < length (?p ! 0)" by simp_all
  have c0: "0 < length (?p ! 0 ! 0)" and c1: "1 < length (?p ! 0 ! 0)" by simp_all
  note t0 = zero_norm_stored_not_finite [OF l c0 n, where n = 2 and this = demo_child
      and par = demo_parent and other = demo_child]
  note t1 = zero_norm_stored_not_finite [OF l c1 n, where n = 2]
  have a: "normalize_patches range32 ?p ! 0 ! 0 ! 0 = PInf"
    using t0 [THEN conjunct1] by (simp add: signed_inf_def)
  have b: "normalize_patches range32 ?p ! 0 ! 0 ! 1 = NaN"
    using t1 [THEN conjunct1] by simp
  have z: "patches_norm range32 (replicate 2 (Fin 0)) = Fin 0"
    using t0 r0 by blast
  show ?thesis using n a b r0 z demo_merge by (simp add: demo_merged_def)
qed

text \<open>
  The zero descriptor of length two has norm zero and is stored as two NaNs, with exact
  arithmetic and with the range of float32, by the normalisation and by the constructor.
\<close>

theorem zero_norm_not_zero_vector:
  "patches_norm Fin [Fin 0, Fin 0] = Fin 0
   \<and> normalize_patches Fin [[[Fin 0, Fin 0]]] = [[[NaN, NaN]]]
   \<and> patches_norm range32 [Fin 0, Fin 0] = Fin 0
   \<and> normalize_patches range32 [[[Fin 0, Fin 0]]] = [[[NaN, NaN]]]
   \<and> patches_orign (Buffer_init Fin [[[Fin 0]]] [[[Fin 0, Fin 0]]] [[Fin 1]] (Fin 1) 4 1)
       = [[[NaN, NaN]]]"
  by (simp add: normalize_patches_def patches_norm_def rsum_def fround_def range32_def
      Buffer_init_def)

subsection \<open>Stored indices and the opposing field\<close>



subsection \<open>The random search without a radius\<close>

text \<open>
  Claim C4, as the code has it. With a radius that is not positive, every candidate is
  \<open>(randint(0, H), randint(0, W))\<close> for the shape \<open>H\<close> by \<open>W\<close> of the field's own
  indices: it does not depend on the cell, on the stored index or on the opposing level,
  and every coordinate of \<open>[0, H) \<times> [0, W)\<close> is the candidate of exactly the raw draws
  congruent to it, so the candidate is uniform over the field's own extent when the raw
  draws are uniform.
\<close>

theorem search_draws_own_extent:
  assumes "rad \<le> 0" "rect H W idx" "0 < H" "0 < W"
  shows "search_candidate g idx rad y x k
           = Inr ((int (g k mod H), int (g (k + 1) mod W)), k + 2)
         \<and> (\<forall>v u. v < H \<longrightarrow> u < W \<longrightarrow>
               search_candidate (\<lambda>j. if j = k then v else u) idx rad y x k
                 = Inr ((int v, int u), k + 2))"
  using assms
  by (simp add: search_candidate_def shape0_rect shape1_rect randint_def zmod_int)

theorem search_draws_own_extent_witness:
  "(- 1 :: int) \<le> 0 \<and> rect 2 2 (indices demo_first)
   \<and> search_candidate demo_gen (indices demo_first) (- 1) 0 0 0 = Inr ((1, 0), 2)"
proof -
  have r: "rect 2 2 (indices demo_first)" using demo_field by (simp add: field_def)
  from search_draws_own_extent [of "- 1" 2 2 "indices demo_first" demo_gen 0 0 0, OF _ r]
  show ?thesis using r by (simp add: demo_gen_def)
qed

text \<open>
  A field of shape 1 by 1 searched against an opposing level of shape 1 by 2: whatever
  the random source, the candidate is \<open>(0, 0)\<close>, never the opposing cell \<open>(0, 1)\<close>.
\<close>

theorem search_ignores_opposing_extent:
  "rect 1 1 (indices small_level) \<and> rect 1 2 (indices wide_level)
   \<and> rect 1 2 (patches_orign wide_level)
   \<and> (\<forall>g k. search_candidate g (indices small_level) (radius small_level) 0 0 k
               = Inr ((0, 0), k + 2))"
  unfolding wide_level_eq small_level_eq
  by (simp add: rect_def search_candidate_def randint_def shape0_def shape1_def)

subsection \<open>Merging an identity parent\<close>

text \<open>
  Claim C9. Without a parent the merge returns any level unchanged. When the parent
  field holds the identity correspondence and the merge returns, every child cell
  \<open>(y, x)\<close> holds \<open>(2 * (y // 2), 2 * (x // 2))\<close> (for a parent of at most \<open>2^30\<close> rows and
  columns, beyond which the doubling would leave the 32 bits of a coordinate).
\<close>

theorem merge_identity_parent:
  "merge_flow rnd level None opposing = Inr level
   \<and> (indices parent = identity_indices Hp Wp \<longrightarrow> Hp \<le> 2 ^ 30 \<longrightarrow> Wp \<le> 2 ^ 30
        \<longrightarrow> merge_flow rnd this (Some parent) other = Inr this'
        \<longrightarrow> y < 2 * Hp \<longrightarrow> x < 2 * Wp
        \<longrightarrow> indices this' ! y ! x = (2 * int (y div 2), 2 * int (x div 2)))"
proof -
  have skip: "merge_flow rnd level None opposing = Inr level"
    by (simp add: merge_flow_def)
  have cell: "indices this' ! y ! x = (2 * int (y div 2), 2 * int (x div 2))"
    if p: "indices parent = identity_indices Hp Wp" and small: "Hp \<le> 2 ^ 30" "Wp \<le> 2 ^ 30"
      and run: "merge_flow rnd this (Some parent) other = Inr this'"
      and c: "y < 2 * Hp" "x < 2 * Wp"
  proof -
    have r: "rect Hp Wp (indices parent)" by (simp add: p rect_identity)
    have h: "y div 2 < Hp" "x div 2 < Wp" using c by auto
    then have i: "indices parent ! (y div 2) ! (x div 2) = (int (y div 2), int (x div 2))"
      by (simp add: p identity_indices_def)
    have "int Hp \<le> int (2 ^ 30)" "int Wp \<le> int (2 ^ 30)"
      using small by (simp_all only: of_nat_le_iff)
    then have q: "int Hp \<le> 1073741824" "int Wp \<le> 1073741824" by simp_all
    have "int (y div 2) < int Hp" "int (x div 2) < int Wp"
      using h by (simp_all only: of_nat_less_iff)
    with q have "int32 (int (y div 2) * 2) = int (y div 2) * 2"
      "int32 (int (x div 2) * 2) = int (x div 2) * 2"
      by (auto intro!: int32_id)
    with merge_flow_cell [OF run r c] i show ?thesis by simp
  qed
  from skip cell show ?thesis by blast
qed

theorem merge_identity_parent_witness:
  "merge_flow Fin small_level None wide_level = Inr small_level
   \<and> indices demo_parent = identity_indices 1 2
   \<and> merge_flow Fin demo_child (Some demo_parent) demo_child = Inr demo_merged
   \<and> indices demo_merged ! 1 ! 3 = (0, 2)"
proof -
  have p: "indices demo_parent = identity_indices 1 2" by (simp add: demo_parent_def)
  have s: "(1::nat) \<le> 2 ^ 30" "(2::nat) \<le> 2 ^ 30" by simp_all
  note t = merge_identity_parent [where rnd = Fin and level = small_level
      and opposing = wide_level and parent = demo_parent and Hp = 1 and Wp = 2
      and this = demo_child and other = demo_child and this' = demo_merged
      and y = 1 and x = 3]
  have a: "merge_flow Fin small_level None wide_level = Inr small_level"
    using t [THEN conjunct1] .
  have b: "indices demo_merged ! 1 ! 3 = (0, 2)"
    using t [THEN conjunct2] p s demo_merge by simp
  from a b p demo_merge show ?thesis by simp
qed

subsection \<open>The propagation sweep\<close>

text \<open>
  Claim C8. On a field of shape \<open>H\<close> by \<open>W\<close> the sweep of iteration \<open>i\<close> visits the rows
  and, within a row, the columns in increasing order when \<open>i\<close> is even and in decreasing
  order when \<open>i\<close> is odd; at each cell it examines the offsets \<open>(0, -1)\<close> and \<open>(-1, 0)\<close>
  (the cells to the left and above) when \<open>i\<close> is even, \<open>(0, 1)\<close> and \<open>(1, 0)\<close> (the cells
  to the right and below) when \<open>i\<close> is odd. One step of the sweep, at cell \<open>(y, x)\<close> with
  offset \<open>off\<close> on the field \<open>first\<close> as the sweep has left it so far: the examined cell
  \<open>(ny, nx)\<close> is the neighbour at that offset, clamped into the field; the candidate
  \<open>(v, u)\<close> is the index stored in \<open>first\<close> at \<open>(ny, nx)\<close> minus the offset, clamped into
  \<open>[0, H) \<times> [0, W)\<close>; the step scores the candidate and stores score and candidate at
  \<open>(y, x)\<close> exactly when the score exceeds the stored one. Every read is inside the
  field, at the corner cells too; the step raises nothing and leaves a field on which
  the same holds again, and so the whole sweep returns.
\<close>

theorem propagate_scan:
  assumes "field H W first"
    and "bank H W D (patches_orign first)" "bank H W D (patches_repro first)"
    and "bank H2 W2 D (patches_orign second)" "bank H2 W2 D (patches_repro second)"
    and "H \<le> H2" "W \<le> W2"
    and "in_bounds H W (indices first)" "H < 2 ^ 31" "W < 2 ^ 31"
    and "y < H" "x < W"
    and "off \<in> set (if i mod 2 = 0 then [(0, - 1), (- 1, 0)] else [(0, 1), (1, 0)])"
  shows "patches_propagate first second i pad =
           efold (\<lambda>y. efold (\<lambda>x. efold (propagate_offset second pad y x)
                    (if i mod 2 = 0 then [(0, - 1), (- 1, 0)] else [(0, 1), (1, 0)]))
                  (if i mod 2 = 0 then map int [0..<W] else rev (map int [0..<W])))
                (if i mod 2 = 0 then map int [0..<H] else rev (map int [0..<H])) first
       \<and> (\<exists>first'. patches_propagate first second i pad = Inr first')
       \<and> (let ny = nat (clamp H (int y + fst off));
               nx = nat (clamp W (int x + snd off));
               v = clamp H (fst (indices first ! ny ! nx) - fst off);
               u = clamp W (snd (indices first ! ny ! nx) - snd off)
           in ny < H \<and> nx < W
              \<and> (0 \<le> int y + fst off \<and> int y + fst off < int H
                   \<longrightarrow> int ny = int y + fst off)
              \<and> (0 \<le> int x + snd off \<and> int x + snd off < int W
                   \<longrightarrow> int nx = int x + snd off)
              \<and> 0 \<le> v \<and> v < int H \<and> 0 \<le> u \<and> u < int W
              \<and> (\<exists>s first'.
                    patches_score first (int y) (int x) second v u pad = Inr s
                  \<and> first' =
                      (if fgt s (scores first ! y ! x)
                       then first\<lparr>scores := (scores first)[y := (scores first ! y)[x := s]],
                                  indices :=
                                    (indices first)[y := (indices first ! y)[x := (v, u)]]\<rparr>
                       else first)
                  \<and> propagate_offset second pad (int y) (int x) off first = Inr first'
                  \<and> field H W first' \<and> in_bounds H W (indices first')
                  \<and> patches_orign first' = patches_orign first
                  \<and> patches_repro first' = patches_repro first))"
proof -
  let ?ny = "nat (clamp H (int y + fst off))" and ?nx = "nat (clamp W (int x + snd off))"
  let ?v = "clamp H (fst (indices first ! ?ny ! ?nx) - fst off)"
  let ?u = "clamp W (snd (indices first ! ?ny ! ?nx) - snd off)"
  have idx: "rect H W (indices first)" and sc: "rect H W (scores first)"
    using assms(1) by (simp_all add: field_def)
  have pos: "0 < H" "0 < W" using assms(11,12) by auto
  have A: "patches_propagate first second i pad =
           efold (\<lambda>y. efold (\<lambda>x. efold (propagate_offset second pad y x)
                    (if i mod 2 = 0 then [(0, - 1), (- 1, 0)] else [(0, 1), (1, 0)]))
                  (if i mod 2 = 0 then map int [0..<W] else rev (map int [0..<W])))
                (if i mod 2 = 0 then map int [0..<H] else rev (map int [0..<H])) first"
    by (rule propagate_unfold [OF idx])
  have B: "\<exists>first'. patches_propagate first second i pad = Inr first'"
    using propagate_total [OF assms(1-7), of i pad] by blast
  from propagate_neighbor_clamp [OF idx assms(11,12), of off]
  have n: "?ny < H" "?nx < W" by simp_all
  have n1: "0 \<le> int y + fst off \<and> int y + fst off < int H \<longrightarrow> int ?ny = int y + fst off"
    using clamp_inside [of "int y + fst off" H] by blast
  have n2: "0 \<le> int x + snd off \<and> int x + snd off < int W \<longrightarrow> int ?nx = int x + snd off"
    using clamp_inside [of "int x + snd off" W] by blast
  have vb: "0 \<le> ?v" "?v < int H" "0 \<le> ?u" "?u < int W"
    using clamp_range [OF pos(1)] clamp_range [OF pos(2)] by simp_all
  from offsets_small [OF assms(13)]
  have c: "propagate_candidate (indices first) (int y) (int x) off = Inr (?v, ?u)"
    by (intro propagate_candidate_clamped [OF idx assms(8,9,10,11,12)]) simp_all
  have inv: "level_inv H W first first" using assms(1) by (simp add: level_inv_def)
  from score_total [OF inv assms(2-7) assms(11,12) vb] obtain s where
    s: "patches_score first (int y) (int x) second ?v ?u pad = Inr s" by blast
  let ?f' = "if fgt s (scores first ! y ! x)
             then first\<lparr>scores := (scores first)[y := (scores first ! y)[x := s]],
                        indices := (indices first)[y := (indices first ! y)[x := (?v, ?u)]]\<rparr>
             else first"
  have e: "propagate_offset second pad (int y) (int x) off first = Inr ?f'"
    by (rule propagate_offset_eq [OF assms(1,11,12) c s])
  have w: "field H W ?f'" "in_bounds H W (indices ?f')"
    "patches_orign ?f' = patches_orign first" "patches_repro ?f' = patches_repro first"
    using assms(1,8) vb by (auto simp: field_def rect_update intro: in_bounds_update)
  have C: "\<exists>s first'.
             patches_score first (int y) (int x) second ?v ?u pad = Inr s
           \<and> first' =
               (if fgt s (scores first ! y ! x)
                then first\<lparr>scores := (scores first)[y := (scores first ! y)[x := s]],
                           indices :=
                             (indices first)[y := (indices first ! y)[x := (?v, ?u)]]\<rparr>
                else first)
           \<and> propagate_offset second pad (int y) (int x) off first = Inr first'
           \<and> field H W first' \<and> in_bounds H W (indices first')
           \<and> patches_orign first' = patches_orign first
           \<and> patches_repro first' = patches_repro first"
    using s e w by blast
  show ?thesis
    unfolding Let_def using A B n n1 n2 vb C by blast
qed

theorem propagate_scan_witness:
  "field 2 2 demo_first
   \<and> bank 2 2 2 (patches_orign demo_first) \<and> bank 2 2 2 (patches_repro demo_first)
   \<and> bank 2 2 2 (patches_orign demo_second) \<and> bank 2 2 2 (patches_repro demo_second)
   \<and> in_bounds 2 2 (indices demo_first)
   \<and> patches_propagate demo_first demo_second 0 1 =
       efold (\<lambda>y. efold (\<lambda>x. efold (propagate_offset demo_second 1 y x) [(0, - 1), (- 1, 0)])
                [0, 1]) [0, 1] demo_first
   \<and> patches_propagate demo_first demo_second 0 1 = Inr demo_propagated
   \<and> indices demo_first ! 0 ! 1 = (0, 1)
   \<and> patches_score demo_first 0 1 demo_second 1 1 1 = Inr (Fin (9/10))
   \<and> scores demo_first ! 0 ! 1 = Fin 0
   \<and> propagate_offset demo_second 1 0 1 (- 1, 0) demo_first = Inr demo_step
   \<and> indices chain_level ! 0 ! 1 = (0, 0)
   \<and> patches_propagate chain_level chain_level 0 1 = Inr chain_swept
   \<and> indices chain_swept ! 0 ! 1 = (0, 2) \<and> indices chain_swept ! 0 ! 2 = (0, 3)"
proof -
  have o: "(- 1, 0) \<in> set (if (0::int) mod 2 = 0 then [(0, - 1), (- 1::int, 0::int)]
                             else [(0, 1), (1, 0)])"
    by simp
  have y0: "(0::nat) < 2" and x1: "(1::nat) < 2" and small: "(2::nat) < 2 ^ 31" by simp_all
  note t = propagate_scan [OF demo_field demo_banks le_refl le_refl demo_in_bounds
      small small y0 x1 o, where pad = 1]
  have u: "[0..<2] = [0, 1]" by (simp add: upt_rec numeral_nat)
  have a: "patches_propagate demo_first demo_second 0 1 =
       efold (\<lambda>y. efold (\<lambda>x. efold (propagate_offset demo_second 1 y x) [(0, - 1), (- 1, 0)])
                [0, 1]) [0, 1] demo_first"
    using t [THEN conjunct1] by (simp add: u del: efold.simps)
  have i: "indices demo_first ! 0 ! 1 = (0, 1)" "scores demo_first ! 0 ! 1 = Fin 0"
    by (simp_all add: demo_first_def identity_indices_def upt_rec numeral_nat)
  have k: "nat (clamp 2 (int 0 + fst (- 1::int, 0::int))) = 0"
    "nat (clamp 2 (int 1 + snd (- 1::int, 0::int))) = 1"
    by (simp_all add: clamp_def)
  from t [THEN conjunct2, THEN conjunct2, unfolded Let_def k] obtain s f' where
    b: "patches_score demo_first (int 0) (int 1) demo_second
          (clamp 2 (fst (indices demo_first ! 0 ! 1) - fst (- 1::int, 0::int)))
          (clamp 2 (snd (indices demo_first ! 0 ! 1) - snd (- 1::int, 0::int))) 1 = Inr s"
    and c: "f' = (if fgt s (scores demo_first ! 0 ! 1)
              then demo_first\<lparr>scores := (scores demo_first)[0 := (scores demo_first ! 0)[1 := s]],
                     indices := (indices demo_first)[0 := (indices demo_first ! 0)[1 :=
                       (clamp 2 (fst (indices demo_first ! 0 ! 1) - fst (- 1::int, 0::int)),
                        clamp 2 (snd (indices demo_first ! 0 ! 1) - snd (- 1::int, 0::int)))]]\<rparr>
              else demo_first)"
    and d: "propagate_offset demo_second 1 (int 0) (int 1) (- 1, 0) demo_first = Inr f'"
    by blast
  from b have "s = Fin (9/10)"
    using demo_step_score by (simp add: i clamp_def del: One_nat_def)
  with c have "f' = demo_step"
    by (simp add: i clamp_def demo_step_def del: One_nat_def)
       (simp add: demo_first_def identity_indices_def upt_rec numeral_nat)
  with d have e: "propagate_offset demo_second 1 0 1 (- 1, 0) demo_first = Inr demo_step"
    by simp
  have ch: "indices chain_level ! 0 ! 1 = (0, 0)"
    "indices chain_swept ! 0 ! 1 = (0, 2)" "indices chain_swept ! 0 ! 2 = (0, 3)"
    by (simp_all add: chain_level_def chain_swept_def)
  show ?thesis
    using demo_field demo_banks demo_in_bounds a demo_propagate i demo_step_score e
      ch chain_propagate
    by simp
qed

subsection \<open>The sweeps on well-shaped levels\<close>

text \<open>
  On a field of shape \<open>H\<close> by \<open>W\<close> whose patch banks have that shape, against an opposing
  level whose banks are at least as large and hold descriptors of the same length, the
  propagation sweep and the random search return without raising, and leave the shape
  of the field as it was.
\<close>

theorem sweeps_return:
  assumes "field H W first"
    and "bank H W D (patches_orign first)" "bank H W D (patches_repro first)"
    and "bank H2 W2 D (patches_orign second)" "bank H2 W2 D (patches_repro second)"
    and "H \<le> H2" "W \<le> W2"
  shows "(\<exists>first'. patches_propagate first second i pad = Inr first' \<and> field H W first')
       \<and> (\<exists>first' k'. patches_search g first second n_times rad pad k = Inr (first', k')
             \<and> field H W first')"
  using propagate_total [OF assms, of i pad] search_total [OF assms, of g n_times rad pad k]
  by (auto simp: level_inv_def)

theorem sweeps_return_witness:
  "field 2 2 demo_first
   \<and> bank 2 2 2 (patches_orign demo_first) \<and> bank 2 2 2 (patches_repro demo_first)
   \<and> bank 2 2 2 (patches_orign demo_second) \<and> bank 2 2 2 (patches_repro demo_second)
   \<and> (\<exists>first'. patches_propagate demo_first demo_second 1 1 = Inr first' \<and> field 2 2 first')
   \<and> (\<exists>first' k'. patches_search demo_gen demo_first demo_second 2 4 1 0 = Inr (first', k')
         \<and> field 2 2 first')"
  using sweeps_return [OF demo_field demo_banks le_refl le_refl,
      where i = 1 and pad = 1 and g = demo_gen and n_times = 2 and rad = 4 and k = 0]
    demo_field demo_banks
  by (simp del: One_nat_def)

end
